theory Spec2Isabelle
  imports Main "HOL-Library.Multiset"
begin

section \<open>The grid model (class Maze)\<close>

text \<open>
  A coordinate is the pair of its \<open>x\<close> and \<open>y\<close> fields (integers); the board is the
  \<open>number[][]\<close> of the source, a list of rows, with \<open>0\<close> passable and anything else not.
\<close>

type_synonym Coordinate = "int \<times> int"

text \<open>
  The errors: \<open>InvalidStartOrEnd\<close> is the error of \<open>Maze.create\<close>,
  \<open>FailedToCreateUsableMaze\<close> the one of \<open>createStartAndEndCoordinate\<close>; \<open>OutOfRange\<close>
  stands for a write outside the matrix and \<open>CallDepthExceeded\<close> for a recursion deeper
  than the depth of calls a run is given.
\<close>

datatype error = InvalidStartOrEnd | FailedToCreateUsableMaze | OutOfRange | CallDepthExceeded

record Maze =
  maze :: "int list list"
  start :: Coordinate
  "end" :: Coordinate

text \<open>
  \<open>board[y][x]\<close> for integers \<open>x\<close>, \<open>y\<close>: an index outside a JavaScript array reads
  \<open>undefined\<close>, here \<open>None\<close>.
\<close>

definition cellAt :: "int list list \<Rightarrow> Coordinate \<Rightarrow> int option" where
  "cellAt board c =
     (case c of (cx, cy) \<Rightarrow>
        if 0 \<le> cy \<and> cy < int (length board)
        then (let row = board ! nat cy
              in if 0 \<le> cx \<and> cx < int (length row) then Some (row ! nat cx) else None)
        else None)"

text \<open>
  \<open>Maze.isValidCoordinate\<close>: the conjunction is evaluated left to right, so \<open>board[0]\<close> is
  only read when the board has a row.
\<close>

definition isValidCoordinate :: "int list list \<Rightarrow> Coordinate \<Rightarrow> bool" where
  "isValidCoordinate board c =
     (case c of (cx, cy) \<Rightarrow>
        cy \<ge> 0 \<and> cy < int (length board) \<and> cx \<ge> 0 \<and> cx < int (length (board ! 0)) \<and>
        cellAt board (cx, cy) = Some 0)"

text \<open>\<open>Maze.create\<close>: both flags are computed from \<open>start\<close>, as in the source.\<close>

definition create :: "int list list \<Rightarrow> Coordinate \<Rightarrow> Coordinate \<Rightarrow> error + Maze" where
  "create board start_c end_c =
     (let isPossibleStart = isValidCoordinate board start_c;
          isPossibleEnd = isValidCoordinate board start_c
      in if \<not> isPossibleStart \<or> \<not> isPossibleEnd then Inl InvalidStartOrEnd
         else Inr \<lparr> maze = board, start = start_c, end = end_c \<rparr>)"

definition isValidMove :: "Maze \<Rightarrow> Coordinate \<Rightarrow> bool" where
  "isValidMove m c = isValidCoordinate (maze m) c"

definition getStart :: "Maze \<Rightarrow> Coordinate" where
  "getStart m = start m"

definition getEnd :: "Maze \<Rightarrow> Coordinate" where
  "getEnd m = end m"

section \<open>The A* solver (class AStarSolver)\<close>

text \<open>
  The maps of the solver are keyed by \<open>coordinateToString\<close>, which writes \<open>x,y\<close> in
  decimal and is injective on integer coordinates; the model keys them by the coordinate.
  Scores are path lengths, natural numbers.
\<close>

definition heuristic :: "Coordinate \<Rightarrow> Coordinate \<Rightarrow> nat" where
  "heuristic a b = nat (\<bar>fst a - fst b\<bar> + \<bar>snd a - snd b\<bar>)"

definition getNeighbors :: "Coordinate \<Rightarrow> Coordinate list" where
  "getNeighbors c =
     (case c of (cx, cy) \<Rightarrow> [(cx - 1, cy), (cx + 1, cy), (cx, cy - 1), (cx, cy + 1)])"

text \<open>
  \<open>PriorityQueue\<close>: \<open>enqueue\<close> pushes and sorts the whole array by priority (the sort of
  an array is stable), \<open>dequeue\<close> shifts the first element off.
\<close>

type_synonym PriorityQueue = "(Coordinate \<times> nat) list"

definition enqueue :: "PriorityQueue \<Rightarrow> Coordinate \<Rightarrow> nat \<Rightarrow> PriorityQueue" where
  "enqueue elements element priority = sort_key snd (elements @ [(element, priority)])"

definition dequeue :: "PriorityQueue \<Rightarrow> (Coordinate \<times> PriorityQueue) option" where
  "dequeue elements = (case elements of [] \<Rightarrow> None | e # rest \<Rightarrow> Some (fst e, rest))"

definition isEmpty :: "PriorityQueue \<Rightarrow> bool" where
  "isEmpty elements = (length elements = 0)"

record AStar =
  openSet :: PriorityQueue
  parentMap :: "Coordinate \<rightharpoonup> Coordinate"
  gScore :: "Coordinate \<rightharpoonup> nat"
  fScore :: "Coordinate \<rightharpoonup> nat"

text \<open>
  \<open>buildPath\<close>: the \<open>while (parentMap.has(key))\<close> loop follows the back-pointers and
  puts each one in front of the path; on a cyclic map it does not return (\<open>None\<close>).
\<close>

partial_function (option) buildPathLoop ::
  "(Coordinate \<rightharpoonup> Coordinate) \<Rightarrow> Coordinate \<Rightarrow> Coordinate list \<Rightarrow> Coordinate list option" where
  "buildPathLoop pm currentCoord path =
     (case pm currentCoord of
        None \<Rightarrow> Some path
      | Some p \<Rightarrow> buildPathLoop pm p (p # path))"

declare buildPathLoop.simps [code]

definition buildPath :: "(Coordinate \<rightharpoonup> Coordinate) \<Rightarrow> Coordinate \<Rightarrow> Coordinate list option" where
  "buildPath pm currentCoord = buildPathLoop pm currentCoord [currentCoord]"

text \<open>
  The body of the loop over the neighbours. \<open>gScore.get(current)!\<close> is read only for a
  neighbour that is a valid move; when \<open>current\<close> has no score the source would go on
  with \<open>NaN\<close>, which the model reports as \<open>None\<close> (the search below then stops with
  \<open>ScoreUndefined\<close>).
\<close>

definition relax :: "Maze \<Rightarrow> Coordinate \<Rightarrow> Coordinate \<Rightarrow> Coordinate \<Rightarrow> AStar \<Rightarrow> AStar option" where
  "relax m end_c current neighbor st =
     (if \<not> isValidMove m neighbor then Some st
      else case gScore st current of
        None \<Rightarrow> None
      | Some gc \<Rightarrow>
          (let tentativeGScore = gc + 1 in
           if (case gScore st neighbor of None \<Rightarrow> True | Some gn \<Rightarrow> tentativeGScore < gn)
           then (let f = tentativeGScore + heuristic neighbor end_c in
                 Some (st\<lparr> parentMap := (parentMap st)(neighbor \<mapsto> current),
                           gScore := (gScore st)(neighbor \<mapsto> tentativeGScore),
                           fScore := (fScore st)(neighbor \<mapsto> f),
                           openSet := enqueue (openSet st) neighbor f \<rparr>))
           else Some st))"

fun forNeighbors :: "Maze \<Rightarrow> Coordinate \<Rightarrow> Coordinate \<Rightarrow> Coordinate list \<Rightarrow> AStar \<Rightarrow> AStar option" where
  "forNeighbors m end_c current [] st = Some st"
| "forNeighbors m end_c current (neighbor # neighbors) st =
     (case relax m end_c current neighbor st of
        None \<Rightarrow> None
      | Some st' \<Rightarrow> forNeighbors m end_c current neighbors st')"

text \<open>
  What \<open>findPath\<close> returns: a path, \<open>null\<close>, or (model only) the report that a score
  was read that had never been set.
\<close>

datatype outcome = Path "Coordinate list" | Null | ScoreUndefined

text \<open>
  The \<open>while (!openSet.isEmpty())\<close> loop of \<open>findPath\<close>, from the dequeue on. That
  it terminates on every state is proved below, with the measure \<open>progress\<close> and the
  length of the queue.
\<close>

function search :: "Maze \<Rightarrow> Coordinate \<Rightarrow> AStar \<Rightarrow> outcome option" where
  "search m end_c st =
     (case dequeue (openSet st) of
        None \<Rightarrow> Some Null
      | Some (current, rest) \<Rightarrow>
          if fst current = fst end_c \<and> snd current = snd end_c
          then map_option Path (buildPath (parentMap st) current)
          else (case forNeighbors m end_c current (getNeighbors current) (st\<lparr>openSet := rest\<rparr>) of
                  None \<Rightarrow> Some ScoreUndefined
                | Some st' \<Rightarrow> search m end_c st'))"
  by pat_completeness auto

text \<open>
  \<open>findPath\<close>: the start is enqueued with priority 0 and scored 0; \<open>None\<close> is
  the run that does not return.
\<close>

definition findPath :: "Maze \<Rightarrow> outcome option" where
  "findPath m =
     (let start_c = getStart m; end_c = getEnd m;
          st = \<lparr> openSet = enqueue [] start_c 0,
                 parentMap = Map.empty,
                 gScore = [start_c \<mapsto> 0],
                 fScore = [start_c \<mapsto> heuristic start_c end_c] \<rparr>
      in search m end_c st)"

section \<open>The generator (class MazeGenerator)\<close>

text \<open>
  The state of a generator: its fields, the module-level \<open>directions\<close> array that
  \<open>shuffleDirections\<close> permutes in place, and the number of calls of \<open>Math.random\<close> made
  so far. The random source is a parameter \<open>rnd\<close>: \<open>Math.floor(Math.random() * n)\<close> at
  the \<open>k\<close>-th call is \<open>rnd k\<close> reduced into the range that the product can take.
\<close>

record MazeGenerator =
  width :: nat
  height :: nat
  mazeArray :: "int list list"
  directions :: "(int \<times> int) list"
  draws :: nat

definition initialDirections :: "(int \<times> int) list" where
  "initialDirections = [(0, 1), (1, 0), (0, -1), (-1, 0)]"

definition newMazeGenerator :: "nat \<Rightarrow> nat \<Rightarrow> (int \<times> int) list \<Rightarrow> MazeGenerator" where
  "newMazeGenerator w h dirs =
     \<lparr> width = w, height = h, mazeArray = replicate h (replicate w 1),
       directions = dirs, draws = 0 \<rparr>"

definition randomFloor :: "(nat \<Rightarrow> nat) \<Rightarrow> int \<Rightarrow> MazeGenerator \<Rightarrow> int \<times> MazeGenerator" where
  "randomFloor rnd n s =
     ((if n > 0 then int (rnd (draws s)) mod n
       else if n = 0 then 0
       else - (int (rnd (draws s)) mod (1 - n))),
      s\<lparr>draws := draws s + 1\<rparr>)"

text \<open>
  \<open>this.mazeArray[y][x] = v\<close>. Outside the matrix the source would raise a TypeError
  (no such row) or grow the row (no such column); the model reports \<open>None\<close>.
\<close>

definition setCell :: "int list list \<Rightarrow> Coordinate \<Rightarrow> int \<Rightarrow> int list list option" where
  "setCell board c v =
     (case c of (cx, cy) \<Rightarrow>
        if 0 \<le> cy \<and> cy < int (length board) \<and> 0 \<le> cx \<and> cx < int (length (board ! nat cy))
        then Some (board[nat cy := (board ! nat cy)[nat cx := v]])
        else None)"

text \<open>\<open>MazeGenerator.isValidCoordinate\<close>: strictly inside the outer ring.\<close>

definition isValidCell :: "MazeGenerator \<Rightarrow> int \<Rightarrow> int \<Rightarrow> bool" where
  "isValidCell s cx cy = (cx > 0 \<and> cx < int (width s) - 1 \<and> cy > 0 \<and> cy < int (height s) - 1)"

text \<open>
  \<open>shuffleDirections\<close>: for \<open>i\<close> from the last index down to 1, entry \<open>i\<close> is swapped
  with entry \<open>j = Math.floor(Math.random() * (i + 1))\<close> of the shared array, in place;
  the array itself is returned.
\<close>

definition swap :: "nat \<Rightarrow> nat \<Rightarrow> 'a list \<Rightarrow> 'a list" where
  "swap i j xs = xs[i := xs ! j, j := xs ! i]"

fun shuffleLoop :: "(nat \<Rightarrow> nat) \<Rightarrow> nat \<Rightarrow> MazeGenerator \<Rightarrow> MazeGenerator" where
  "shuffleLoop rnd 0 s = s"
| "shuffleLoop rnd (Suc k) s =
     (case randomFloor rnd (int (Suc k) + 1) s of
        (j, s1) \<Rightarrow> shuffleLoop rnd k (s1\<lparr>directions := swap (Suc k) (nat j) (directions s1)\<rparr>))"

definition shuffleDirections :: "(nat \<Rightarrow> nat) \<Rightarrow> MazeGenerator \<Rightarrow> MazeGenerator" where
  "shuffleDirections rnd s = shuffleLoop rnd (length (directions s) - 1) s"

text \<open>
  \<open>recursiveBacktrack\<close>, with the depth of calls still available as first numeric
  argument, and its loop \<open>for (const [dx, dy] of directions)\<close> as \<open>forDirections\<close>:
  the iterator reads entry \<open>i\<close> of the shared array when it gets there, so it sees what
  the nested calls have shuffled in the meantime. The array has four entries, which the
  shuffle only permutes.
\<close>

function recursiveBacktrack :: "(nat \<Rightarrow> nat) \<Rightarrow> nat \<Rightarrow> Coordinate \<Rightarrow> MazeGenerator \<Rightarrow> error + MazeGenerator"
  and forDirections :: "(nat \<Rightarrow> nat) \<Rightarrow> nat \<Rightarrow> Coordinate \<Rightarrow> nat \<Rightarrow> MazeGenerator \<Rightarrow> error + MazeGenerator"
  where
  "recursiveBacktrack rnd 0 coord s = Inl CallDepthExceeded"
| "recursiveBacktrack rnd (Suc fuel) coord s =
     (case setCell (mazeArray s) coord 0 of
        None \<Rightarrow> Inl OutOfRange
      | Some a \<Rightarrow> forDirections rnd fuel coord 0 (shuffleDirections rnd (s\<lparr>mazeArray := a\<rparr>)))"
| "forDirections rnd fuel coord i s =
     (if i < 4 \<and> i < length (directions s) then
        (case directions s ! i of (dx, dy) \<Rightarrow>
           (let newX = fst coord + dx * 2; newY = snd coord + dy * 2 in
            if isValidCell s newX newY \<and> cellAt (mazeArray s) (newX, newY) = Some 1
            then (case setCell (mazeArray s) (fst coord + dx, snd coord + dy) 0 of
                    None \<Rightarrow> Inl OutOfRange
                  | Some a \<Rightarrow>
                      (case recursiveBacktrack rnd fuel (newX, newY) (s\<lparr>mazeArray := a\<rparr>) of
                         Inl err \<Rightarrow> Inl err
                       | Inr s' \<Rightarrow> forDirections rnd fuel coord (i + 1) s'))
            else forDirections rnd fuel coord (i + 1) s))
      else Inr s)"
  by pat_completeness auto
termination
  by (relation "measure (case_sum (\<lambda>(rnd, fuel, coord, s). 6 * fuel)
        (\<lambda>(rnd, fuel, coord, i, s). 6 * fuel + 5 - i))") auto

declare forDirections.simps [simp del]

text \<open>
  \<open>isValidStartEndPoint\<close>: the neighbours are taken in the order of the shared
  \<open>directions\<close> array; only a neighbour inside the matrix whose cell is \<open>1\<close> is counted.
\<close>

definition isValidStartEndPoint :: "MazeGenerator \<Rightarrow> Coordinate \<Rightarrow> bool" where
  "isValidStartEndPoint s coord =
     (let wallCount =
        foldl (\<lambda>count d.
                 (case d of (dx, dy) \<Rightarrow>
                    (let ux = fst coord + dx; uy = snd coord + dy in
                     if ux \<ge> 0 \<and> uy \<ge> 0 \<and> uy < int (height s) \<and> ux < int (width s) \<and>
                        cellAt (mazeArray s) (ux, uy) = Some 1
                     then count + 1 else count)))
              (0 :: nat) (directions s)
      in wallCount \<le> 2)"

text \<open>
  The sides are the four strings of \<open>createStartAndEnd\<close>; no other string reaches
  \<open>getRandomSizeCoordinate\<close>, whose \<open>default\<close> branch therefore has no counterpart.
\<close>

datatype Side = Top | Right | Bottom | Left

definition getRandomSizeCoordinate ::
  "(nat \<Rightarrow> nat) \<Rightarrow> Side \<Rightarrow> MazeGenerator \<Rightarrow> Coordinate \<times> MazeGenerator" where
  "getRandomSizeCoordinate rnd side s =
     (case side of
        Top \<Rightarrow> (case randomFloor rnd (int (width s) - 2) s of (r, s') \<Rightarrow> ((1 + r, 0), s'))
      | Right \<Rightarrow>
          (case randomFloor rnd (int (height s) - 2) s of (r, s') \<Rightarrow> ((int (width s) - 1, 1 + r), s'))
      | Bottom \<Rightarrow>
          (case randomFloor rnd (int (width s) - 2) s of (r, s') \<Rightarrow> ((1 + r, int (height s) - 1), s'))
      | Left \<Rightarrow> (case randomFloor rnd (int (height s) - 2) s of (r, s') \<Rightarrow> ((0, 1 + r), s')))"

definition maxAttempts :: nat where
  "maxAttempts = 100"

text \<open>
  The \<open>while (!isValid && attempts < maxAttempts)\<close> loop of \<open>createStartAndEndCoordinate\<close>,
  on its variables \<open>coord\<close> (not yet assigned: \<open>None\<close>), \<open>isValid\<close> and \<open>attempts\<close>.
\<close>

function placementLoop ::
  "(nat \<Rightarrow> nat) \<Rightarrow> Side \<Rightarrow> Coordinate option \<Rightarrow> bool \<Rightarrow> nat \<Rightarrow> MazeGenerator
     \<Rightarrow> Coordinate option \<times> bool \<times> nat \<times> MazeGenerator" where
  "placementLoop rnd side coord isValid attempts s =
     (if \<not> isValid \<and> attempts < maxAttempts
      then (case getRandomSizeCoordinate rnd side s of
              (c, s') \<Rightarrow> placementLoop rnd side (Some c) (isValidStartEndPoint s' c) (attempts + 1) s')
      else (coord, isValid, attempts, s))"
  by pat_completeness auto
termination
  by (relation "measure (\<lambda>(rnd, side, coord, isValid, attempts, s). maxAttempts - attempts)") auto

declare placementLoop.simps [simp del]

definition createStartAndEndCoordinate ::
  "(nat \<Rightarrow> nat) \<Rightarrow> Side \<Rightarrow> MazeGenerator \<Rightarrow> error + Coordinate \<times> MazeGenerator" where
  "createStartAndEndCoordinate rnd side s =
     (case placementLoop rnd side None False 0 s of
        (coord, isValid, attempts, s') \<Rightarrow>
          if \<not> isValid then Inl FailedToCreateUsableMaze
          else (case coord of None \<Rightarrow> Inl FailedToCreateUsableMaze | Some c \<Rightarrow> Inr (c, s')))"

text \<open>
  \<open>sides.sort(() => Math.random() - 0.5).slice(0, 2)\<close>: the comparator does not look at
  its arguments, so the sorted array is some permutation of the four sides chosen by the
  random source, of which the first two are taken. The model draws the first side among
  the four and the second among the remaining three.
\<close>

definition sides :: "Side list" where
  "sides = [Top, Right, Bottom, Left]"

definition pickSides :: "(nat \<Rightarrow> nat) \<Rightarrow> MazeGenerator \<Rightarrow> Side \<times> Side \<times> MazeGenerator" where
  "pickSides rnd s =
     (case randomFloor rnd 4 s of
        (i, s1) \<Rightarrow>
          (case randomFloor rnd 3 s1 of
             (j, s2) \<Rightarrow>
               (let startSide = sides ! nat i;
                    endSide = remove1 startSide sides ! nat j
                in (startSide, endSide, s2))))"

definition createStartAndEnd ::
  "(nat \<Rightarrow> nat) \<Rightarrow> MazeGenerator \<Rightarrow> error + Coordinate \<times> Coordinate \<times> MazeGenerator" where
  "createStartAndEnd rnd s =
     (case pickSides rnd s of
        (startSide, endSide, s1) \<Rightarrow>
          (case createStartAndEndCoordinate rnd startSide s1 of
             Inl err \<Rightarrow> Inl err
           | Inr (start_c, s2) \<Rightarrow>
               (case createStartAndEndCoordinate rnd endSide s2 of
                  Inl err \<Rightarrow> Inl err
                | Inr (end_c, s3) \<Rightarrow>
                    (case setCell (mazeArray s3) start_c 0 of
                       None \<Rightarrow> Inl OutOfRange
                     | Some a \<Rightarrow>
                         (case setCell a end_c 0 of
                            None \<Rightarrow> Inl OutOfRange
                          | Some a' \<Rightarrow> Inr (start_c, end_c, s3\<lparr>mazeArray := a'\<rparr>))))))"

text \<open>
  The carving phase of \<open>generate\<close>: the start cell (its \<open>x\<close> drawn first) and
  \<open>recursiveBacktrack\<close>. \<open>fuel\<close> is the depth of calls the run may use.
\<close>

definition carve :: "(nat \<Rightarrow> nat) \<Rightarrow> nat \<Rightarrow> MazeGenerator \<Rightarrow> error + MazeGenerator" where
  "carve rnd fuel s =
     (case randomFloor rnd ((int (width s) - 1) div 2) s of
        (rx, s1) \<Rightarrow>
          (case randomFloor rnd ((int (height s) - 1) div 2) s1 of
             (ry, s2) \<Rightarrow> recursiveBacktrack rnd fuel (1 + rx * 2, 1 + ry * 2) s2))"

text \<open>
  \<open>generate\<close>: carving, placement of the entrance and the exit, and \<open>Maze.create\<close>
  on the final matrix.
\<close>

definition generate :: "(nat \<Rightarrow> nat) \<Rightarrow> nat \<Rightarrow> MazeGenerator \<Rightarrow> error + Maze" where
  "generate rnd fuel s =
     (case carve rnd fuel s of
        Inl err \<Rightarrow> Inl err
      | Inr s1 \<Rightarrow>
          (case createStartAndEnd rnd s1 of
             Inl err \<Rightarrow> Inl err
           | Inr (start_c, end_c, s2) \<Rightarrow> create (mazeArray s2) start_c end_c))"

text \<open>A random source given by the list of its first values (and 0 afterwards).\<close>

definition tape :: "nat list \<Rightarrow> nat \<Rightarrow> nat" where
  "tape xs k = (if k < length xs then xs ! k else 0)"

section \<open>Notions used in the properties\<close>

text \<open>A matrix is rectangular when every row is as long as the first one.\<close>

definition rectangular :: "int list list \<Rightarrow> bool" where
  "rectangular board = list_all (\<lambda>row. length row = length (board ! 0)) board"

text \<open>
  Two coordinates are adjacent when they differ by exactly one unit in exactly one axis.
  A walk is a non-empty sequence of valid moves, each adjacent to the next; it connects
  its first coordinate to its last.
\<close>

definition adjacent :: "Coordinate \<Rightarrow> Coordinate \<Rightarrow> bool" where
  "adjacent a b =
     ((\<bar>fst a - fst b\<bar> = 1 \<and> snd a = snd b) \<or> (fst a = fst b \<and> \<bar>snd a - snd b\<bar> = 1))"

fun walk :: "Maze \<Rightarrow> Coordinate list \<Rightarrow> bool" where
  "walk m [] = False"
| "walk m [c] = isValidMove m c"
| "walk m (a # b # cs) = (isValidMove m a \<and> adjacent a b \<and> walk m (b # cs))"

definition connects :: "Maze \<Rightarrow> Coordinate list \<Rightarrow> Coordinate \<Rightarrow> Coordinate \<Rightarrow> bool" where
  "connects m w a b = (walk m w \<and> hd w = a \<and> last w = b)"

text \<open>
  A state is well formed when the matrix has \<open>height\<close> rows of \<open>width\<close> cells and the
  shared array holds the four directions in some order. \<open>wallNeighbors\<close> counts the
  axis-aligned neighbours of a coordinate that lie inside the matrix and are walls;
  \<open>wallNeighborsCountingOutside\<close> also counts every neighbour outside the matrix.
\<close>

definition wellFormed :: "MazeGenerator \<Rightarrow> bool" where
  "wellFormed s =
     (length (mazeArray s) = height s \<and> list_all (\<lambda>row. length row = width s) (mazeArray s)
      \<and> mset (directions s) = mset initialDirections)"

definition inBounds :: "MazeGenerator \<Rightarrow> Coordinate \<Rightarrow> bool" where
  "inBounds s c = (0 \<le> fst c \<and> fst c < int (width s) \<and> 0 \<le> snd c \<and> snd c < int (height s))"

definition wallNeighbors :: "MazeGenerator \<Rightarrow> Coordinate \<Rightarrow> nat" where
  "wallNeighbors s c =
     length (filter (\<lambda>n. inBounds s n \<and> cellAt (mazeArray s) n = Some 1) (getNeighbors c))"

definition wallNeighborsCountingOutside :: "MazeGenerator \<Rightarrow> Coordinate \<Rightarrow> nat" where
  "wallNeighborsCountingOutside s c =
     length (filter (\<lambda>n. \<not> inBounds s n \<or> cellAt (mazeArray s) n = Some 1) (getNeighbors c))"

text \<open>
  The coordinates that \<open>getRandomSizeCoordinate\<close> can return for a side (the corners
  are never sampled), and the \<open>k\<close>-th coordinate the placement loop samples.
\<close>

definition onSide :: "MazeGenerator \<Rightarrow> Side \<Rightarrow> Coordinate \<Rightarrow> bool" where
  "onSide s side c =
     (case side of
        Top \<Rightarrow> snd c = 0 \<and> 1 \<le> fst c \<and> fst c \<le> int (width s) - 2
      | Right \<Rightarrow> fst c = int (width s) - 1 \<and> 1 \<le> snd c \<and> snd c \<le> int (height s) - 2
      | Bottom \<Rightarrow> snd c = int (height s) - 1 \<and> 1 \<le> fst c \<and> fst c \<le> int (width s) - 2
      | Left \<Rightarrow> fst c = 0 \<and> 1 \<le> snd c \<and> snd c \<le> int (height s) - 2)"

definition sample :: "(nat \<Rightarrow> nat) \<Rightarrow> Side \<Rightarrow> MazeGenerator \<Rightarrow> nat \<Rightarrow> Coordinate" where
  "sample rnd side s k = fst (getRandomSizeCoordinate rnd side (s\<lparr>draws := draws s + k\<rparr>))"

text \<open>The neighbour of a boundary coordinate towards the inside of the grid.\<close>

definition inward :: "Side \<Rightarrow> Coordinate \<Rightarrow> Coordinate" where
  "inward side c =
     (case side of
        Top \<Rightarrow> (fst c, snd c + 1)
      | Right \<Rightarrow> (fst c - 1, snd c)
      | Bottom \<Rightarrow> (fst c, snd c - 1)
      | Left \<Rightarrow> (fst c + 1, snd c))"

text \<open>The example maze of the repository, and the path the solver finds on it.\<close>

definition exampleMaze :: Maze where
  "exampleMaze =
     \<lparr> maze = [[0, 1, 0, 0, 0], [0, 1, 0, 1, 0], [0, 0, 0, 1, 0], [0, 1, 1, 1, 0], [0, 1, 0, 0, 0]],
       start = (0, 0), end = (4, 4) \<rparr>"

definition examplePath :: "Coordinate list" where
  "examplePath =
     [(0, 0), (0, 1), (0, 2), (1, 2), (2, 2), (2, 1), (2, 0), (3, 0), (4, 0), (4, 1), (4, 2),
      (4, 3), (4, 4)]"

text \<open>
  The 3 by 3 grid after carving (only the centre is a passage), and the maze that
  \<open>generate\<close> returns for width 3 and height 3 when every draw is 0.
\<close>

definition carved3 :: MazeGenerator where
  "carved3 = \<lparr> width = 3, height = 3, mazeArray = [[1, 1, 1], [1, 0, 1], [1, 1, 1]],
     directions = initialDirections, draws = 5 \<rparr>"

definition generated3 :: Maze where
  "generated3 = \<lparr> maze = [[1, 0, 1], [1, 0, 0], [1, 1, 1]], start = (1, 0), end = (2, 1) \<rparr>"

section \<open>Invariants and measures\<close>

text \<open>The termination measure of the search, over the finitely many valid moves.\<close>

definition unscored :: "Maze \<Rightarrow> AStar \<Rightarrow> nat" where
  "unscored m st = card {c. isValidMove m c \<and> gScore st c = None}"

definition scoreSum :: "Maze \<Rightarrow> AStar \<Rightarrow> nat" where
  "scoreSum m st = (\<Sum>c \<in> {c. isValidMove m c \<and> gScore st c \<noteq> None}. the (gScore st c))"

definition progress :: "Maze \<Rightarrow> AStar \<Rightarrow> nat \<times> nat" where
  "progress m st = (unscored m st, scoreSum m st)"

text \<open>
  The invariants of the search, for the start \<open>s\<close> and the end \<open>e\<close>. \<open>basic_inv\<close>: the
  start is scored 0 and has no back-pointer; a back-pointer leads from a valid move to an
  adjacent coordinate of strictly smaller score; every scored coordinate but the start
  has one; every queued coordinate is scored at most its priority; the queue is sorted.
  \<open>frontier_inv\<close>: every scored coordinate either has a queue entry of priority at most
  its score plus the heuristic, or is not the end and has all its valid neighbours scored
  at most one more than itself. \<open>expanding_inv\<close> is the same in the middle of the loop
  over the neighbours of \<open>cur\<close>, of which those in \<open>done\<close> have been dealt with.
\<close>

definition scored_le :: "AStar \<Rightarrow> Coordinate \<Rightarrow> nat \<Rightarrow> bool" where
  "scored_le st n b = (case gScore st n of None \<Rightarrow> False | Some g \<Rightarrow> g \<le> b)"

definition basic_inv :: "Maze \<Rightarrow> Coordinate \<Rightarrow> AStar \<Rightarrow> bool" where
  "basic_inv m s st =
     (isValidMove m s \<and> gScore st s = Some 0 \<and> parentMap st s = None \<and>
      (\<forall>n p. parentMap st n = Some p \<longrightarrow>
         isValidMove m n \<and> adjacent p n \<and>
         (\<exists>gp gn. gScore st p = Some gp \<and> gScore st n = Some gn \<and> gp < gn)) \<and>
      (\<forall>n. gScore st n \<noteq> None \<longrightarrow> n = s \<or> parentMap st n \<noteq> None) \<and>
      (\<forall>(n, f) \<in> set (openSet st). scored_le st n f) \<and>
      sorted (map snd (openSet st)))"

definition expanded :: "Maze \<Rightarrow> AStar \<Rightarrow> nat \<Rightarrow> Coordinate set \<Rightarrow> bool" where
  "expanded m st g ns = (\<forall>n' \<in> ns. isValidMove m n' \<longrightarrow> scored_le st n' (g + 1))"

definition queued :: "Coordinate \<Rightarrow> AStar \<Rightarrow> Coordinate \<Rightarrow> nat \<Rightarrow> bool" where
  "queued e st n g = (\<exists>f. (n, f) \<in> set (openSet st) \<and> f \<le> g + heuristic n e)"

definition frontier_inv :: "Maze \<Rightarrow> Coordinate \<Rightarrow> AStar \<Rightarrow> bool" where
  "frontier_inv m e st =
     (\<forall>n g. gScore st n = Some g \<longrightarrow>
        queued e st n g \<or> (n \<noteq> e \<and> expanded m st g (set (getNeighbors n))))"

definition expanding_inv :: "Maze \<Rightarrow> Coordinate \<Rightarrow> Coordinate \<Rightarrow> Coordinate set \<Rightarrow> AStar \<Rightarrow> bool" where
  "expanding_inv m e cur done st =
     (\<forall>n g. gScore st n = Some g \<longrightarrow>
        queued e st n g \<or> (n \<noteq> e \<and> expanded m st g (set (getNeighbors n)))
        \<or> (n = cur \<and> expanded m st g done))"

text \<open>The state in which \<open>findPath\<close> enters the loop.\<close>

definition initial :: "Maze \<Rightarrow> AStar" where
  "initial m =
     \<lparr> openSet = enqueue [] (getStart m) 0, parentMap = Map.empty,
       gScore = [getStart m \<mapsto> 0],
       fScore = [getStart m \<mapsto> heuristic (getStart m) (getEnd m)] \<rparr>"

text \<open>
  One pass of the loop of the search that does not return: a coordinate other than the
  end is dequeued and its neighbours are dealt with.
\<close>

definition iteration :: "Maze \<Rightarrow> Coordinate \<Rightarrow> AStar \<Rightarrow> AStar \<Rightarrow> bool" where
  "iteration m end_c st st' =
     (\<exists>current rest. dequeue (openSet st) = Some (current, rest) \<and> current \<noteq> end_c
        \<and> forNeighbors m end_c current (getNeighbors current) (st\<lparr>openSet := rest\<rparr>) = Some st')"

text \<open>
  The invariant of the carving, for the start cell \<open>root\<close>: the state is well formed,
  every cell is 0 or 1, the passages lie strictly inside the outer ring, and every
  passage is joined to \<open>root\<close> by adjacent passages. \<open>walls\<close> counts the wall cells, and
  \<open>grown\<close> relates a state to a later one of the same size with at least its passages.
\<close>

definition step :: "int list list \<Rightarrow> Coordinate \<Rightarrow> Coordinate \<Rightarrow> bool" where
  "step board a b = (cellAt board a = Some 0 \<and> cellAt board b = Some 0 \<and> adjacent a b)"

definition carved :: "int list list \<Rightarrow> Coordinate \<Rightarrow> bool" where
  "carved board root = (\<forall>c. cellAt board c = Some 0 \<longrightarrow> (step board)\<^sup>*\<^sup>* root c)"

definition walls :: "MazeGenerator \<Rightarrow> nat" where
  "walls s = card {c. cellAt (mazeArray s) c = Some 1}"

definition genInv :: "Coordinate \<Rightarrow> MazeGenerator \<Rightarrow> bool" where
  "genInv root s =
     (wellFormed s
      \<and> (\<forall>c v. cellAt (mazeArray s) c = Some v \<longrightarrow> v = 0 \<or> v = 1)
      \<and> (\<forall>c. cellAt (mazeArray s) c = Some 0 \<longrightarrow> isValidCell s (fst c) (snd c))
      \<and> carved (mazeArray s) root)"

definition grown :: "Coordinate \<Rightarrow> MazeGenerator \<Rightarrow> MazeGenerator \<Rightarrow> bool" where
  "grown root s s' =
     (genInv root s' \<and> width s' = width s \<and> height s' = height s
      \<and> (\<forall>c. cellAt (mazeArray s) c = Some 0 \<longrightarrow> cellAt (mazeArray s') c = Some 0)
      \<and> walls s' \<le> walls s)"

section \<open>Facts about the grid model\<close>

lemma create_eq:
  "create board s e =
     (if isValidCoordinate board s then Inr \<lparr> maze = board, start = s, end = e \<rparr>
      else Inl InvalidStartOrEnd)"
  by (simp add: create_def)

section \<open>Correctness of the solver\<close>

subsection \<open>Termination of the search\<close>

lemma finite_valid: "finite {c. isValidMove m c}"
proof -
  have "{c. isValidMove m c} \<subseteq> {0..<int (length (maze m ! 0))} \<times> {0..<int (length (maze m))}"
    by (auto simp: isValidMove_def isValidCoordinate_def)
  then show ?thesis by (rule finite_subset) simp
qed

lemma relax_progress:
  assumes "relax m e cur n st = Some st'"
  shows "(openSet st' = openSet st \<and> gScore st' = gScore st \<and> parentMap st' = parentMap st)
     \<or> (progress m st', progress m st) \<in> less_than <*lex*> less_than"
proof (cases "isValidMove m n")
  case False
  with assms show ?thesis by (simp add: relax_def)
next
  case valid: True
  from assms valid obtain gc where gc: "gScore st cur = Some gc"
    by (auto simp: relax_def split: option.splits)
  show ?thesis
  proof (cases "gScore st n")
    case None
    with assms valid gc have g': "gScore st' = (gScore st)(n \<mapsto> gc + 1)"
      by (auto simp: relax_def Let_def)
    have eq: "{c. isValidMove m c \<and> gScore st' c = None} = {c. isValidMove m c \<and> gScore st c = None} - {n}"
      using g' by auto
    have "n \<in> {c. isValidMove m c \<and> gScore st c = None}" using valid None by simp
    moreover have "finite {c. isValidMove m c \<and> gScore st c = None}"
      using finite_valid[of m] by simp
    ultimately have "card ({c. isValidMove m c \<and> gScore st c = None} - {n}) < card {c. isValidMove m c \<and> gScore st c = None}"
      by (intro card_Diff1_less)
    then have "unscored m st' < unscored m st"
      unfolding unscored_def eq .
    then show ?thesis by (simp add: progress_def)
  next
    case (Some gn)
    show ?thesis
    proof (cases "gc + 1 < gn")
      case False
      with assms valid gc Some show ?thesis by (simp add: relax_def)
    next
      case True
      with assms valid gc Some have g': "gScore st' = (gScore st)(n \<mapsto> gc + 1)"
        by (auto simp: relax_def Let_def)
      let ?S = "{c. isValidMove m c \<and> gScore st c \<noteq> None}"
      have fin: "finite ?S" using finite_valid[of m] by simp
      have nS: "n \<in> ?S" using valid Some by simp
      have S': "{c. isValidMove m c \<and> gScore st' c \<noteq> None} = ?S"
        using g' Some by auto
      have un: "{c. isValidMove m c \<and> gScore st' c = None} = {c. isValidMove m c \<and> gScore st c = None}"
        using g' Some by auto
      have "scoreSum m st' = (\<Sum>c \<in> ?S - {n}. the (gScore st' c)) + the (gScore st' n)"
        unfolding scoreSum_def S' using sum.remove[OF fin nS, of "\<lambda>c. the (gScore st' c)"]
        by (simp only: add.commute)
      also have "(\<Sum>c \<in> ?S - {n}. the (gScore st' c)) = (\<Sum>c \<in> ?S - {n}. the (gScore st c))"
        by (rule sum.cong) (auto simp: g')
      also have "the (gScore st' n) = gc + 1" by (simp add: g')
      finally have a: "scoreSum m st' = (\<Sum>c \<in> ?S - {n}. the (gScore st c)) + (gc + 1)" .
      have "scoreSum m st = (\<Sum>c \<in> ?S - {n}. the (gScore st c)) + the (gScore st n)"
        unfolding scoreSum_def using sum.remove[OF fin nS, of "\<lambda>c. the (gScore st c)"]
        by (simp only: add.commute)
      then have b: "scoreSum m st = (\<Sum>c \<in> ?S - {n}. the (gScore st c)) + gn"
        using Some by simp
      have "scoreSum m st' < scoreSum m st" using a b True by simp
      moreover have "unscored m st' = unscored m st" by (simp add: unscored_def un)
      ultimately show ?thesis by (simp add: progress_def)
    qed
  qed
qed

lemma progress_cong: "gScore a = gScore b \<Longrightarrow> progress m a = progress m b"
  by (simp add: progress_def unscored_def scoreSum_def)

lemma forNeighbors_progress:
  "forNeighbors m e cur ns st = Some st' \<Longrightarrow>
     (openSet st' = openSet st \<and> gScore st' = gScore st \<and> parentMap st' = parentMap st)
     \<or> (progress m st', progress m st) \<in> less_than <*lex*> less_than"
proof (induction ns arbitrary: st)
  case Nil
  then show ?case by simp
next
  case (Cons n ns)
  from Cons.prems obtain st1 where r: "relax m e cur n st = Some st1"
    and f: "forNeighbors m e cur ns st1 = Some st'"
    by (auto split: option.splits)
  have tr: "trans (less_than <*lex*> (less_than :: (nat \<times> nat) set))"
    by (intro trans_lex_prod) auto
  from relax_progress[OF r] show ?case
  proof
    assume same: "openSet st1 = openSet st \<and> gScore st1 = gScore st \<and> parentMap st1 = parentMap st"
    then have "progress m st1 = progress m st" by (intro progress_cong) simp
    with Cons.IH[OF f] same show ?thesis by auto
  next
    assume less: "(progress m st1, progress m st) \<in> less_than <*lex*> less_than"
    from Cons.IH[OF f] show ?thesis
    proof
      assume "openSet st' = openSet st1 \<and> gScore st' = gScore st1 \<and> parentMap st' = parentMap st1"
      then have "progress m st' = progress m st1" by (intro progress_cong) simp
      with less show ?thesis by simp
    next
      assume "(progress m st', progress m st1) \<in> less_than <*lex*> less_than"
      with less tr have "(progress m st', progress m st) \<in> less_than <*lex*> less_than"
        by (blast dest: transD)
      then show ?thesis ..
    qed
  qed
qed

termination search
proof (relation "inv_image (less_than <*lex*> less_than <*lex*> less_than)
    (\<lambda>(m, e, st). (unscored m st, scoreSum m st, length (openSet st)))", goal_cases)
  case 1
  show ?case by (intro wf_inv_image wf_lex_prod wf_less_than)
next
  case (2 m end_c st x2 current rest st')
  from 2 have q: "openSet st = (current, snd (hd (openSet st))) # rest"
    by (auto simp: dequeue_def split: list.splits)
  let ?st0 = "st\<lparr>openSet := rest\<rparr>"
  have p0: "progress m ?st0 = progress m st"
    by (simp add: progress_def unscored_def scoreSum_def)
  from forNeighbors_progress[OF 2(4)] show ?case
  proof
    assume "openSet st' = openSet ?st0 \<and> gScore st' = gScore ?st0 \<and> parentMap st' = parentMap ?st0"
    then have "length (openSet st') < length (openSet st)" "unscored m st' = unscored m st"
      "scoreSum m st' = scoreSum m st"
      using q by (simp_all add: unscored_def scoreSum_def) (metis length_Cons lessI)
    then show ?thesis by simp
  next
    assume "(progress m st', progress m ?st0) \<in> less_than <*lex*> less_than"
    then show ?thesis unfolding p0 by (auto simp: progress_def)
  qed
qed

declare search.simps [simp del]

subsection \<open>Paths and the invariants of the search\<close>

lemma adjacent_neighbors: "b \<in> set (getNeighbors a) \<longleftrightarrow> adjacent a b"
  by (cases a; cases b) (auto simp: getNeighbors_def adjacent_def)

lemma adjacent_manhattan: "adjacent a b \<longleftrightarrow> \<bar>fst a - fst b\<bar> + \<bar>snd a - snd b\<bar> = 1"
  by (auto simp: adjacent_def)

lemma neighbor_neq: "b \<in> set (getNeighbors a) \<Longrightarrow> b \<noteq> a"
  by (auto simp: adjacent_neighbors adjacent_def)

lemma set_enqueue: "set (enqueue q x f) = insert (x, f) (set q)"
  by (simp add: enqueue_def)

lemma sorted_enqueue: "sorted (map snd (enqueue q x f))"
  by (simp add: enqueue_def)

text \<open>What one relaxation does to the state.\<close>

lemma relax_cases:
  assumes "relax m e cur nb st = Some st'"
  obtains (same) "st' = st" "isValidMove m nb \<longrightarrow> (\<exists>gc. gScore st cur = Some gc \<and> scored_le st nb (gc + 1))"
  | (update) gc where "isValidMove m nb" "gScore st cur = Some gc" "\<not> scored_le st nb (gc + 1)"
      "st' = st\<lparr> parentMap := (parentMap st)(nb \<mapsto> cur),
                gScore := (gScore st)(nb \<mapsto> gc + 1),
                fScore := (fScore st)(nb \<mapsto> gc + 1 + heuristic nb e),
                openSet := enqueue (openSet st) nb (gc + 1 + heuristic nb e) \<rparr>"
proof (cases "isValidMove m nb")
  case False
  with assms have "st' = st" by (simp add: relax_def)
  with False show ?thesis by (intro same) simp_all
next
  case True
  with assms obtain gc where gc: "gScore st cur = Some gc"
    by (cases "gScore st cur") (simp_all add: relax_def)
  show ?thesis
  proof (cases "scored_le st nb (gc + 1)")
    case le: True
    then obtain gn where "gScore st nb = Some gn" "gn \<le> gc + 1"
      by (cases "gScore st nb") (simp_all add: scored_le_def)
    with assms True gc have "st' = st" by (simp add: relax_def)
    with le gc show ?thesis by (intro same) simp_all
  next
    case nle: False
    have "st' = st\<lparr> parentMap := (parentMap st)(nb \<mapsto> cur),
                gScore := (gScore st)(nb \<mapsto> gc + 1),
                fScore := (fScore st)(nb \<mapsto> gc + 1 + heuristic nb e),
                openSet := enqueue (openSet st) nb (gc + 1 + heuristic nb e) \<rparr>"
    proof (cases "gScore st nb")
      case None
      with assms True gc show ?thesis by (simp add: relax_def Let_def)
    next
      case (Some gn)
      with nle have "Suc gc < gn" by (simp add: scored_le_def)
      with Some assms True gc show ?thesis by (simp add: relax_def Let_def)
    qed
    with True gc nle show ?thesis by (intro update)
  qed
qed

lemma relax_scored_le:
  "relax m e cur nb st = Some st' \<Longrightarrow> scored_le st n b \<Longrightarrow> scored_le st' n b"
  by (erule relax_cases) (auto simp: scored_le_def split: option.splits)

lemma basic_inv_start:
  "basic_inv m s st \<Longrightarrow> isValidMove m s \<and> gScore st s = Some 0 \<and> parentMap st s = None"
  unfolding basic_inv_def by blast

lemma basic_inv_parent:
  "basic_inv m s st \<Longrightarrow> parentMap st n = Some p \<Longrightarrow>
     isValidMove m n \<and> adjacent p n \<and>
     (\<exists>gp gn. gScore st p = Some gp \<and> gScore st n = Some gn \<and> gp < gn)"
  unfolding basic_inv_def by blast

lemma basic_inv_chain:
  "basic_inv m s st \<Longrightarrow> gScore st n = Some g \<Longrightarrow> n = s \<or> parentMap st n \<noteq> None"
  unfolding basic_inv_def by blast

lemma basic_inv_queue:
  "basic_inv m s st \<Longrightarrow> (n, f) \<in> set (openSet st) \<Longrightarrow> scored_le st n f"
  unfolding basic_inv_def by blast

lemma basic_inv_sorted:
  "basic_inv m s st \<Longrightarrow> sorted (map snd (openSet st))"
  unfolding basic_inv_def by blast

lemma relax_basic_inv:
  assumes r: "relax m e cur nb st = Some st'" and nb: "nb \<in> set (getNeighbors cur)"
    and inv: "basic_inv m s st"
  shows "basic_inv m s st'"
  using r
proof (cases rule: relax_cases)
  case same
  with inv show ?thesis by simp
next
  case (update gc)
  have neq: "nb \<noteq> cur" using nb by (rule neighbor_neq)
  have adj: "adjacent cur nb" using nb by (simp add: adjacent_neighbors)
  have nbs: "nb \<noteq> s" using basic_inv_start[OF inv] update(3) by (auto simp: scored_le_def)
  have g': "gScore st' = (gScore st)(nb \<mapsto> gc + 1)" and p': "parentMap st' = (parentMap st)(nb \<mapsto> cur)"
    and q': "openSet st' = enqueue (openSet st) nb (gc + 1 + heuristic nb e)"
    by (simp_all add: update(4))
  have 1: "isValidMove m s \<and> gScore st' s = Some 0 \<and> parentMap st' s = None"
    using basic_inv_start[OF inv] nbs by (simp add: g' p')
  have 2: "isValidMove m n \<and> adjacent p n \<and>
         (\<exists>gp gn. gScore st' p = Some gp \<and> gScore st' n = Some gn \<and> gp < gn)"
    if "parentMap st' n = Some p" for n p
  proof (cases "n = nb")
    case True
    then have "p = cur" using that by (simp add: p')
    with True update(1,2) adj neq show ?thesis by (simp add: g')
  next
    case False
    then have old: "parentMap st n = Some p" using that by (simp add: p')
    with basic_inv_parent[OF inv] obtain gp gn where o: "isValidMove m n" "adjacent p n" "gScore st p = Some gp" "gScore st n = Some gn" "gp < gn"
      by blast
    show ?thesis
    proof (cases "p = nb")
      case True
      with o update(3) have "gc + 1 < gp" by (simp add: scored_le_def)
      with o True False show ?thesis by (simp add: g')
    next
      case False
      with o \<open>n \<noteq> nb\<close> show ?thesis by (simp add: g')
    qed
  qed
  have 3: "n = s \<or> parentMap st' n \<noteq> None" if "gScore st' n \<noteq> None" for n
    using that basic_inv_chain[OF inv, of n] by (cases "n = nb") (auto simp: g' p')
  have 4: "scored_le st' n f" if "(n, f) \<in> set (openSet st')" for n f
  proof (cases "(n, f) = (nb, gc + 1 + heuristic nb e)")
    case True
    then show ?thesis by (simp add: scored_le_def g')
  next
    case False
    with that have "(n, f) \<in> set (openSet st)" by (auto simp: q' set_enqueue)
    with inv have "scored_le st n f" by (intro basic_inv_queue)
    with r show ?thesis by (rule relax_scored_le)
  qed
  have 5: "sorted (map snd (openSet st'))" by (simp add: q' sorted_enqueue)
  from 1 2 3 4 5 show ?thesis unfolding basic_inv_def by (simp add: case_prod_beta)
qed

lemma forNeighbors_basic_inv:
  "forNeighbors m e cur ns st = Some st' \<Longrightarrow> set ns \<subseteq> set (getNeighbors cur) \<Longrightarrow>
     basic_inv m s st \<Longrightarrow> basic_inv m s st'"
proof (induction ns arbitrary: st)
  case Nil
  then show ?case by simp
next
  case (Cons nb ns)
  from Cons.prems(1) obtain st1 where r: "relax m e cur nb st = Some st1"
    and f: "forNeighbors m e cur ns st1 = Some st'"
    by (auto split: option.splits)
  from Cons.prems(2) have nb: "nb \<in> set (getNeighbors cur)" and ns: "set ns \<subseteq> set (getNeighbors cur)"
    by simp_all
  from relax_basic_inv[OF r nb Cons.prems(3)] have "basic_inv m s st1" .
  with Cons.IH[OF f ns] show ?case .
qed

lemma expanded_mono:
  "relax m e cur nb st = Some st' \<Longrightarrow> expanded m st g ns \<Longrightarrow> expanded m st' g ns"
  unfolding expanded_def by (blast intro: relax_scored_le)

lemma queued_mono:
  assumes "relax m e cur nb st = Some st'" and "queued e st n g"
  shows "queued e st' n g"
  using assms(1)
proof (cases rule: relax_cases)
  case same
  with assms(2) show ?thesis by simp
next
  case (update gc)
  with assms(2) show ?thesis by (auto simp: queued_def set_enqueue)
qed

lemma relax_expanding_inv:
  assumes r: "relax m e cur nb st = Some st'" and nb: "nb \<in> set (getNeighbors cur)"
    and inv: "expanding_inv m e cur done st" and gc: "gScore st cur \<noteq> None"
  shows "expanding_inv m e cur (insert nb done) st'"
  unfolding expanding_inv_def
proof (intro allI impI)
  fix n g
  assume g': "gScore st' n = Some g"
  have neq: "nb \<noteq> cur" using nb by (rule neighbor_neq)
  from r show "queued e st' n g \<or> (n \<noteq> e \<and> expanded m st' g (set (getNeighbors n)))
        \<or> (n = cur \<and> expanded m st' g (insert nb done))"
  proof (cases rule: relax_cases)
    case same
    from g' same(1) inv have *: "queued e st n g \<or> (n \<noteq> e \<and> expanded m st g (set (getNeighbors n)))
        \<or> (n = cur \<and> expanded m st g done)"
      unfolding expanding_inv_def by blast
    have "expanded m st g (insert nb done)" if "n = cur" "expanded m st g done"
      using that same(2) g' same(1) by (auto simp: expanded_def)
    with * same(1) show ?thesis by blast
  next
    case (update gc)
    have gs: "gScore st' = (gScore st)(nb \<mapsto> gc + 1)"
      and qs: "openSet st' = enqueue (openSet st) nb (gc + 1 + heuristic nb e)"
      by (simp_all add: update(4))
    show ?thesis
    proof (cases "n = nb")
      case True
      with g' have "g = gc + 1" by (simp add: gs)
      with True have "queued e st' n g" by (auto simp: queued_def qs set_enqueue)
      then show ?thesis ..
    next
      case False
      with g' have old: "gScore st n = Some g" by (simp add: gs)
      with inv have *: "queued e st n g \<or> (n \<noteq> e \<and> expanded m st g (set (getNeighbors n)))
        \<or> (n = cur \<and> expanded m st g done)"
        unfolding expanding_inv_def by blast
      have "expanded m st' g (insert nb done)" if "n = cur" "expanded m st g done"
      proof -
        from that(1) old update(2) have "g = gc" by simp
        then have "scored_le st' nb (g + 1)" by (simp add: scored_le_def gs)
        moreover have "expanded m st' g done" using r that(2) by (rule expanded_mono)
        ultimately show ?thesis by (simp add: expanded_def)
      qed
      with * queued_mono[OF r] expanded_mono[OF r] show ?thesis by blast
    qed
  qed
qed

lemma relax_keeps_score:
  "relax m e cur nb st = Some st' \<Longrightarrow> gScore st n \<noteq> None \<Longrightarrow> gScore st' n \<noteq> None"
  by (erule relax_cases) auto

lemma forNeighbors_expanding_inv:
  "forNeighbors m e cur ns st = Some st' \<Longrightarrow> set ns \<subseteq> set (getNeighbors cur) \<Longrightarrow>
     expanding_inv m e cur done st \<Longrightarrow> gScore st cur \<noteq> None \<Longrightarrow>
     expanding_inv m e cur (set ns \<union> done) st'"
proof (induction ns arbitrary: st "done")
  case Nil
  then show ?case by simp
next
  case (Cons nb ns)
  from Cons.prems(1) obtain st1 where r: "relax m e cur nb st = Some st1"
    and f: "forNeighbors m e cur ns st1 = Some st'"
    by (auto split: option.splits)
  from Cons.prems(2) have nb: "nb \<in> set (getNeighbors cur)" and ns: "set ns \<subseteq> set (getNeighbors cur)"
    by simp_all
  have 1: "expanding_inv m e cur (insert nb done) st1"
    using r nb Cons.prems(3,4) by (rule relax_expanding_inv)
  have 2: "gScore st1 cur \<noteq> None" using r Cons.prems(4) by (rule relax_keeps_score)
  from Cons.IH[OF f ns 1 2] show ?case by simp
qed

lemma forNeighbors_defined:
  "gScore st cur \<noteq> None \<Longrightarrow> \<exists>st'. forNeighbors m e cur ns st = Some st'"
proof (induction ns arbitrary: st)
  case Nil
  then show ?case by simp
next
  case (Cons nb ns)
  from Cons.prems obtain st1 where r: "relax m e cur nb st = Some st1"
    by (cases "relax m e cur nb st") (auto simp: relax_def Let_def split: if_splits)
  then have "gScore st1 cur \<noteq> None" using Cons.prems by (rule relax_keeps_score)
  from Cons.IH[OF this] r show ?case by simp
qed

lemma walk_nonempty: "walk m w \<Longrightarrow> w \<noteq> []"
  by (cases w) simp_all

lemma walk_snoc:
  "walk m (xs @ [p]) \<Longrightarrow> adjacent p n \<Longrightarrow> isValidMove m n \<Longrightarrow> walk m (xs @ [p, n])"
proof (induction xs)
  case Nil
  then show ?case by simp
next
  case (Cons a xs)
  then show ?case by (cases xs) simp_all
qed

lemma heuristic_step: "adjacent a b \<Longrightarrow> heuristic a e \<le> heuristic b e + 1"
  by (auto simp: adjacent_def heuristic_def)

lemma walk_admissible: "walk m w \<Longrightarrow> heuristic (hd w) (last w) \<le> length w - 1"
proof (induction m w rule: walk.induct)
  case (1 m)
  then show ?case by simp
next
  case (2 m c)
  show ?case by (simp add: heuristic_def)
next
  case (3 m a b cs)
  then have "heuristic b (last (b # cs)) \<le> length cs" by simp
  moreover have "heuristic a (last (b # cs)) \<le> heuristic b (last (b # cs)) + 1"
    using 3 by (intro heuristic_step) simp
  ultimately show ?case by simp
qed

lemma buildPathLoop_chain:
  assumes inv: "basic_inv m s st"
  shows "gScore st n = Some g \<Longrightarrow>
    \<exists>pre. buildPathLoop (parentMap st) n (n # rest) = Some (pre @ n # rest)
        \<and> walk m (pre @ [n]) \<and> hd (pre @ [n]) = s \<and> length pre \<le> g"
proof (induction g arbitrary: n rest rule: less_induct)
  case (less g)
  show ?case
  proof (cases "parentMap st n")
    case None
    with basic_inv_chain[OF inv less.prems] have "n = s" by simp
    moreover have "buildPathLoop (parentMap st) n (n # rest) = Some (n # rest)"
      using None by (subst buildPathLoop.simps) simp
    ultimately show ?thesis using basic_inv_start[OF inv] by (intro exI[of _ "[]"]) simp
  next
    case (Some p)
    with basic_inv_parent[OF inv] less.prems obtain gp where
      p: "isValidMove m n" "adjacent p n" "gScore st p = Some gp" "gp < g"
      by fastforce
    from less.IH[OF p(4) p(3), of "n # rest"] obtain pre where
      pre: "buildPathLoop (parentMap st) p (p # n # rest) = Some (pre @ p # n # rest)"
        "walk m (pre @ [p])" "hd (pre @ [p]) = s" "length pre \<le> gp"
      by blast
    have "buildPathLoop (parentMap st) n (n # rest) = Some ((pre @ [p]) @ n # rest)"
      using Some pre(1) by (subst buildPathLoop.simps) simp
    moreover have "walk m ((pre @ [p]) @ [n])"
      using walk_snoc[OF pre(2) p(2) p(1)] by simp
    moreover have "hd ((pre @ [p]) @ [n]) = s" using pre(3) by (cases pre) simp_all
    moreover have "length (pre @ [p]) \<le> g" using pre(4) p(4) by simp
    ultimately show ?thesis by blast
  qed
qed

lemma frontier_reaches:
  "walk m w \<Longrightarrow> frontier_inv m e st \<Longrightarrow> last w = e \<Longrightarrow> gScore st (hd w) = Some g \<Longrightarrow>
    \<exists>n f. (n, f) \<in> set (openSet st) \<and> f \<le> g + (length w - 1)"
proof (induction m w arbitrary: g rule: walk.induct)
  case (1 m)
  then show ?case by simp
next
  case (2 m c)
  then have c: "c = e" and g: "gScore st e = Some g" and inv: "frontier_inv m e st" by simp_all
  from inv g have "queued e st e g" unfolding frontier_inv_def by blast
  then obtain f where "(e, f) \<in> set (openSet st)" "f \<le> g"
    by (auto simp: queued_def heuristic_def)
  then show ?case by (intro exI[of _ e] exI[of _ f]) simp
next
  case (3 m a b cs)
  from "3.prems" have ga: "gScore st a = Some g" and w: "isValidMove m a" "adjacent a b" "walk m (b # cs)"
    and l: "last (b # cs) = e" and inv: "frontier_inv m e st"
    by simp_all
  from inv ga have "queued e st a g \<or> expanded m st g (set (getNeighbors a))"
    unfolding frontier_inv_def by (auto simp del: split_paired_All)
  then show ?case
  proof
    assume "queued e st a g"
    then obtain f where f: "(a, f) \<in> set (openSet st)" "f \<le> g + heuristic a e"
      by (auto simp: queued_def)
    have "heuristic a e \<le> length (a # b # cs) - 1"
      using walk_admissible[OF "3.prems"(1)] l by simp
    with f show ?thesis by (intro exI[of _ a] exI[of _ f]) simp
  next
    assume ex: "expanded m st g (set (getNeighbors a))"
    have "isValidMove m b" using w(3) by (cases cs) simp_all
    moreover have "b \<in> set (getNeighbors a)" using w(2) by (simp add: adjacent_neighbors)
    ultimately have "scored_le st b (g + 1)" using ex by (auto simp: expanded_def)
    then obtain gb where gb: "gScore st b = Some gb" "gb \<le> g + 1"
      by (cases "gScore st b") (simp_all add: scored_le_def)
    from "3.IH"[OF w(3) inv l, of gb] gb obtain n f where
      "(n, f) \<in> set (openSet st)" "f \<le> gb + (length (b # cs) - 1)"
      by auto
    with gb(2) show ?thesis by (intro exI[of _ n] exI[of _ f]) simp
  qed
qed

lemma pop_basic_inv:
  assumes "basic_inv m s st" and "openSet st = x # rest"
  shows "basic_inv m s (st\<lparr>openSet := rest\<rparr>)"
proof -
  have "scored_le (st\<lparr>openSet := rest\<rparr>) n f" if "(n, f) \<in> set rest" for n f
    using basic_inv_queue[OF assms(1), of n f] that assms(2) by (simp add: scored_le_def)
  moreover have "sorted (map snd rest)"
    using basic_inv_sorted[OF assms(1)] assms(2) by simp
  ultimately show ?thesis
    using assms(1) unfolding basic_inv_def by (simp add: case_prod_beta)
qed

lemma pop_expanding_inv:
  assumes "frontier_inv m e st" and "openSet st = (cur, fc) # rest"
  shows "expanding_inv m e cur {} (st\<lparr>openSet := rest\<rparr>)"
  unfolding expanding_inv_def
proof (intro allI impI)
  fix n g
  let ?st0 = "st\<lparr>openSet := rest\<rparr>"
  assume "gScore ?st0 n = Some g"
  then have g: "gScore st n = Some g" by simp
  have ex: "expanded m ?st0 g' ns = expanded m st g' ns" for g' ns
    by (simp add: expanded_def scored_le_def)
  show "queued e ?st0 n g \<or> (n \<noteq> e \<and> expanded m ?st0 g (set (getNeighbors n)))
      \<or> (n = cur \<and> expanded m ?st0 g {})"
  proof (cases "n = cur")
    case True
    then show ?thesis by (simp add: expanded_def)
  next
    case False
    from assms(1) g have "queued e st n g \<or> (n \<noteq> e \<and> expanded m st g (set (getNeighbors n)))"
      unfolding frontier_inv_def by blast
    moreover have "queued e ?st0 n g" if "queued e st n g"
      using that False assms(2) by (auto simp: queued_def)
    ultimately show ?thesis unfolding ex by blast
  qed
qed

lemma expanding_done:
  assumes "expanding_inv m e cur (set (getNeighbors cur)) st" and "cur \<noteq> e"
  shows "frontier_inv m e st"
  using assms unfolding expanding_inv_def frontier_inv_def by blast

text \<open>What the search returns from a state that satisfies the invariants.\<close>

lemma search_correct:
  assumes "basic_inv m s st" and "frontier_inv m e st"
  shows "(\<exists>p. search m e st = Some (Path p) \<and> connects m p s e
            \<and> (\<forall>w. connects m w s e \<longrightarrow> length p \<le> length w))
       \<or> (search m e st = Some Null \<and> (\<forall>w. \<not> connects m w s e))"
  using assms
proof (induction m e st rule: search.induct)
  case (1 m e st)
  note binv = "1.prems"(1) and finv = "1.prems"(2)
  have g0: "gScore st s = Some 0" using basic_inv_start[OF binv] by simp
  have front: "\<exists>n f. (n, f) \<in> set (openSet st) \<and> f \<le> length w - 1" if "connects m w s e" for w
    using frontier_reaches[OF _ finv, of w 0] that g0 by (simp add: connects_def)
  show ?case
  proof (cases "openSet st")
    case Nil
    then have "search m e st = Some Null"
      by (subst search.simps) (simp add: dequeue_def)
    moreover have "\<not> connects m w s e" for w using front[of w] Nil by auto
    ultimately show ?thesis by blast
  next
    case (Cons x rest)
    obtain cur fc where x: "x = (cur, fc)" by (cases x)
    note q = Cons[unfolded x]
    have dq: "dequeue (openSet st) = Some (cur, rest)" by (simp add: dequeue_def q)
    from basic_inv_queue[OF binv, of cur fc] q obtain gc where
      gc: "gScore st cur = Some gc" "gc \<le> fc"
      by (cases "gScore st cur") (simp_all add: scored_le_def)
    show ?thesis
    proof (cases "cur = e")
      case True
      from buildPathLoop_chain[OF binv gc(1), of "[]"] obtain pre where
        pre: "buildPathLoop (parentMap st) cur [cur] = Some (pre @ [cur])"
          "walk m (pre @ [cur])" "hd (pre @ [cur]) = s" "length pre \<le> gc"
        by auto
      have res: "search m e st = Some (Path (pre @ [cur]))"
        using True pre(1) by (subst search.simps) (simp add: dq buildPath_def)
      have con: "connects m (pre @ [cur]) s e" using pre True by (simp add: connects_def)
      have "length (pre @ [cur]) \<le> length w" if w: "connects m w s e" for w
      proof -
        from front[OF w] obtain n f where nf: "(n, f) \<in> set (openSet st)" "f \<le> length w - 1"
          by blast
        have "fc \<le> f" using basic_inv_sorted[OF binv] nf(1) q by auto
        moreover have "w \<noteq> []" using w by (auto simp: connects_def dest: walk_nonempty)
        ultimately show ?thesis using pre(4) gc(2) nf(2) by (cases w) simp_all
      qed
      with res con show ?thesis by blast
    next
      case False
      let ?st0 = "st\<lparr>openSet := rest\<rparr>"
      have "gScore ?st0 cur \<noteq> None" using gc by simp
      from forNeighbors_defined[OF this, of m e "getNeighbors cur"] obtain st' where
        fn: "forNeighbors m e cur (getNeighbors cur) ?st0 = Some st'"
        by blast
      have b0: "basic_inv m s ?st0" using binv q by (rule pop_basic_inv)
      have b': "basic_inv m s st'" using fn _ b0 by (rule forNeighbors_basic_inv) simp
      have e0: "expanding_inv m e cur {} ?st0" using finv q by (rule pop_expanding_inv)
      have "expanding_inv m e cur (set (getNeighbors cur) \<union> {}) st'"
        using fn _ e0 by (rule forNeighbors_expanding_inv) (simp_all add: gc)
      then have f': "frontier_inv m e st'" using False by (intro expanding_done[of m e cur]) simp
      have ne: "\<not> (fst cur = fst e \<and> snd cur = snd e)" using False by (simp add: prod_eq_iff)
      have step: "search m e st = search m e st'"
        using search.simps[of m e st] ne fn dq by simp
      from "1.IH"[OF dq refl ne fn b' f'] show ?thesis unfolding step .
    qed
  qed
qed

lemma search_null_exhausted:
  "search m e st = Some Null \<Longrightarrow> \<exists>st'. (iteration m e)\<^sup>*\<^sup>* st st' \<and> isEmpty (openSet st')"
proof (induction m e st rule: search.induct)
  case (1 m e st)
  show ?case
  proof (cases "dequeue (openSet st)")
    case None
    then have "isEmpty (openSet st)" by (simp add: dequeue_def isEmpty_def split: list.splits)
    then show ?thesis by blast
  next
    case (Some x)
    obtain cur rest where x: "x = (cur, rest)" by (cases x)
    note dq = Some[unfolded x]
    show ?thesis
    proof (cases "cur = e")
      case True
      with "1.prems" dq show ?thesis
        by (simp add: search.simps[of m e st] split: option.splits)
    next
      case False
      then have ne: "\<not> (fst cur = fst e \<and> snd cur = snd e)" by (simp add: prod_eq_iff)
      show ?thesis
      proof (cases "forNeighbors m e cur (getNeighbors cur) (st\<lparr>openSet := rest\<rparr>)")
        case None
        with "1.prems" dq ne show ?thesis by (simp add: search.simps[of m e st])
      next
        case (Some st1)
        with "1.prems" dq ne have "search m e st1 = Some Null" by (simp add: search.simps[of m e st])
        from "1.IH"[OF dq refl ne Some this] obtain st' where
          r: "(iteration m e)\<^sup>*\<^sup>* st1 st'" and e: "isEmpty (openSet st')" by blast
        have "iteration m e st st1" using dq False Some by (auto simp: iteration_def)
        then have "(iteration m e)\<^sup>*\<^sup>* st st'" using r by (rule converse_rtranclp_into_rtranclp)
        with e show ?thesis by blast
      qed
    qed
  qed
qed

lemma findPath_search: "findPath m = search m (getEnd m) (initial m)"
  by (simp add: findPath_def initial_def Let_def)

lemma initial_basic_inv:
  "isValidMove m (getStart m) \<Longrightarrow> basic_inv m (getStart m) (initial m)"
  by (simp add: basic_inv_def initial_def enqueue_def scored_le_def)

lemma initial_frontier_inv: "frontier_inv m e (initial m)"
  by (auto simp: frontier_inv_def initial_def enqueue_def queued_def split: if_splits)

lemma create_valid_start: "create board s e = Inr m \<Longrightarrow> isValidMove m (getStart m)"
  by (auto simp: create_eq isValidMove_def getStart_def split: if_splits)

lemma findPath_correct:
  assumes "isValidMove m (getStart m)"
  shows "(\<exists>p. findPath m = Some (Path p) \<and> connects m p (getStart m) (getEnd m)
            \<and> (\<forall>w. connects m w (getStart m) (getEnd m) \<longrightarrow> length p \<le> length w))
       \<or> (findPath m = Some Null \<and> (\<forall>w. \<not> connects m w (getStart m) (getEnd m)))"
  unfolding findPath_search
  using initial_basic_inv[OF assms] initial_frontier_inv by (rule search_correct)

lemma walk_valid: "walk m w \<Longrightarrow> c \<in> set w \<Longrightarrow> isValidMove m c"
  by (induction m w rule: walk.induct) auto

lemma walk_adjacent: "walk m w \<Longrightarrow> Suc i < length w \<Longrightarrow> adjacent (w ! i) (w ! Suc i)"
proof (induction m w arbitrary: i rule: walk.induct)
  case (3 m a b cs)
  then show ?case by (cases i) simp_all
qed simp_all

section \<open>Correctness of the generator\<close>

subsection \<open>The generator's state\<close>

lemma cellAt_Some_iff:
  "cellAt board (cx, cy) = Some v \<longleftrightarrow>
     0 \<le> cy \<and> cy < int (length board) \<and> 0 \<le> cx \<and> cx < int (length (board ! nat cy))
     \<and> board ! nat cy ! nat cx = v"
  by (auto simp: cellAt_def Let_def)

lemma cellAt_setCell:
  assumes "setCell board c v = Some board'"
  shows "cellAt board' c' = (if c' = c then Some v else cellAt board c')"
proof -
  obtain cx cy where c: "c = (cx, cy)" by (cases c)
  obtain x y where c': "c' = (x, y)" by (cases c')
  from assms c have r: "0 \<le> cy" "cy < int (length board)" "0 \<le> cx" "cx < int (length (board ! nat cy))"
    and b': "board' = board[nat cy := (board ! nat cy)[nat cx := v]]"
    by (auto simp: setCell_def split: if_splits)
  show ?thesis
  proof (cases "0 \<le> y \<and> y < int (length board)")
    case False
    with r have "c' \<noteq> c" using c c' by auto
    with False show ?thesis by (auto simp: cellAt_def c' b')
  next
    case True
    show ?thesis
    proof (cases "y = cy")
      case False
      then have "nat y \<noteq> nat cy" using True r by auto
      with False True show ?thesis by (auto simp: cellAt_def c c' b' Let_def)
    next
      case ycy: True
      show ?thesis
      proof (cases "x = cx")
        case True
        with ycy r show ?thesis by (simp add: cellAt_def c c' b' Let_def)
      next
        case False
        then have "0 \<le> x \<Longrightarrow> nat x \<noteq> nat cx" using r by auto
        with False ycy r show ?thesis by (auto simp: cellAt_def c c' b' Let_def)
      qed
    qed
  qed
qed

lemma setCell_shape:
  assumes "setCell board c v = Some board'"
  shows "length board' = length board" "list_all (\<lambda>row. length row = w) board' \<longleftrightarrow> list_all (\<lambda>row. length row = w) board"
proof -
  obtain cx cy where c: "c = (cx, cy)" by (cases c)
  from assms c have r: "0 \<le> cy" "cy < int (length board)"
    and b': "board' = board[nat cy := (board ! nat cy)[nat cx := v]]"
    by (auto simp: setCell_def split: if_splits)
  show "length board' = length board" by (simp add: b')
  have "length (board' ! i) = length (board ! i)" if "i < length board" for i
    using that by (cases "i = nat cy") (simp_all add: b')
  then show "list_all (\<lambda>row. length row = w) board' \<longleftrightarrow> list_all (\<lambda>row. length row = w) board"
    by (simp add: list_all_length \<open>length board' = length board\<close>)
qed

lemma setCell_defined:
  assumes "wellFormed s" and "inBounds s c"
  shows "\<exists>a. setCell (mazeArray s) c v = Some a"
proof -
  obtain cx cy where c: "c = (cx, cy)" by (cases c)
  from assms c have "nat cy < length (mazeArray s)" by (auto simp: wellFormed_def inBounds_def)
  with assms(1) have "length (mazeArray s ! nat cy) = width s"
    by (simp add: wellFormed_def list_all_length)
  with assms c show ?thesis by (auto simp: setCell_def wellFormed_def inBounds_def)
qed

lemma cellAt_inBounds:
  assumes "wellFormed s"
  shows "(\<exists>v. cellAt (mazeArray s) c = Some v) \<longleftrightarrow> inBounds s c"
proof -
  obtain cx cy where c: "c = (cx, cy)" by (cases c)
  have "length (mazeArray s ! nat cy) = width s" if "0 \<le> cy" "cy < int (height s)"
    using that assms by (simp add: wellFormed_def list_all_length)
  with assms show ?thesis by (auto simp: c cellAt_def inBounds_def wellFormed_def Let_def)
qed

lemma randomFloor_range:
  "0 < n \<Longrightarrow> 0 \<le> fst (randomFloor rnd n s) \<and> fst (randomFloor rnd n s) < n"
  by (simp add: randomFloor_def)

lemma randomFloor_state: "snd (randomFloor rnd n s) = s\<lparr>draws := draws s + 1\<rparr>"
  by (simp add: randomFloor_def)

lemma mset_swap_dirs: "i < length xs \<Longrightarrow> j < length xs \<Longrightarrow> mset (swap i j xs) = mset xs"
  unfolding swap_def by (simp add: mset_swap)

lemma shuffleLoop_keeps:
  "k < length (directions s) \<Longrightarrow>
     mset (directions (shuffleLoop rnd k s)) = mset (directions s)
     \<and> mazeArray (shuffleLoop rnd k s) = mazeArray s
     \<and> width (shuffleLoop rnd k s) = width s \<and> height (shuffleLoop rnd k s) = height s"
proof (induction k arbitrary: s)
  case 0
  then show ?case by simp
next
  case (Suc k)
  obtain j s1 where r: "randomFloor rnd (int (Suc k) + 1) s = (j, s1)" by (cases "randomFloor rnd (int (Suc k) + 1) s")
  have j: "0 \<le> j" "j < int (Suc k) + 1"
    using randomFloor_range[of "int (Suc k) + 1" rnd s] r by simp_all
  have s1: "s1 = s\<lparr>draws := draws s + 1\<rparr>" using randomFloor_state[of rnd "int (Suc k) + 1" s] r by simp
  let ?s2 = "s1\<lparr>directions := swap (Suc k) (nat j) (directions s1)\<rparr>"
  have nj: "nat j < length (directions s)" using j Suc.prems by linarith
  have m: "mset (directions ?s2) = mset (directions s)"
    using Suc.prems nj by (simp add: s1 mset_swap_dirs)
  then have "length (directions ?s2) = length (directions s)" by (metis size_mset)
  with Suc.prems have "k < length (directions ?s2)" by simp
  from Suc.IH[OF this] m r show ?case by (simp add: s1)
qed

lemma dirs_length:
  assumes "mset (directions s) = mset initialDirections"
  shows "length (directions s) = 4"
proof -
  have "size (mset (directions s)) = size (mset initialDirections)" using assms by simp
  then show ?thesis by (simp add: initialDirections_def)
qed

lemma dirs_unit:
  assumes "mset (directions s) = mset initialDirections" and "i < 4"
  shows "directions s ! i \<in> {(0, 1), (1, 0), (0, -1), (-1, 0)}"
proof -
  have "directions s ! i \<in> set (directions s)" using assms dirs_length[OF assms(1)] by simp
  also have "set (directions s) = set initialDirections" using assms(1) by (rule mset_eq_setD)
  finally show ?thesis by (simp add: initialDirections_def)
qed

lemma shuffleDirections_keeps:
  assumes "mset (directions s) = mset initialDirections"
  shows "mset (directions (shuffleDirections rnd s)) = mset initialDirections"
    "mazeArray (shuffleDirections rnd s) = mazeArray s"
    "width (shuffleDirections rnd s) = width s" "height (shuffleDirections rnd s) = height s"
proof -
  have "length (directions s) = 4" using assms by (rule dirs_length)
  then have "length (directions s) - 1 < length (directions s)" by simp
  from shuffleLoop_keeps[OF this, of rnd] assms
  show "mset (directions (shuffleDirections rnd s)) = mset initialDirections"
    "mazeArray (shuffleDirections rnd s) = mazeArray s"
    "width (shuffleDirections rnd s) = width s" "height (shuffleDirections rnd s) = height s"
    by (simp_all add: shuffleDirections_def)
qed

lemma foldl_count:
  "foldl (\<lambda>count d. if Q d then count + 1 else count) (k :: nat) ds = k + length (filter Q ds)"
  by (induction ds arbitrary: k) simp_all

lemma isValidStartEndPoint_count:
  "isValidStartEndPoint s c \<longleftrightarrow>
     length (filter (\<lambda>d. inBounds s (fst c + fst d, snd c + snd d)
                      \<and> cellAt (mazeArray s) (fst c + fst d, snd c + snd d) = Some 1) (directions s)) \<le> 2"
proof -
  let ?Q = "\<lambda>d. inBounds s (fst c + fst d, snd c + snd d)
                      \<and> cellAt (mazeArray s) (fst c + fst d, snd c + snd d) = Some 1"
  have "(\<lambda>count d. case d of (dx, dy) \<Rightarrow>
            (let ux = fst c + dx; uy = snd c + dy in
             if ux \<ge> 0 \<and> uy \<ge> 0 \<and> uy < int (height s) \<and> ux < int (width s) \<and>
                cellAt (mazeArray s) (ux, uy) = Some 1
             then count + 1 else count))
        = (\<lambda>(count :: nat) d. if ?Q d then count + 1 else count)"
    by (auto simp: fun_eq_iff inBounds_def Let_def split: prod.splits)
  then show ?thesis
    using foldl_count[of ?Q 0 "directions s"] by (simp add: isValidStartEndPoint_def Let_def)
qed

lemma length_filter_mset:
  assumes "mset xs = mset ys"
  shows "length (filter Q xs) = length (filter Q ys)"
proof -
  from assms have "mset (filter Q xs) = mset (filter Q ys)" by simp
  then show ?thesis by (rule mset_eq_length)
qed

lemma neighbors_of_directions:
  "mset (map (\<lambda>d. (fst c + fst d, snd c + snd d)) initialDirections) = mset (getNeighbors c)"
  by (cases c) (simp add: initialDirections_def getNeighbors_def)

lemma accepted_iff_wallNeighbors:
  assumes "mset (directions s) = mset initialDirections"
  shows "isValidStartEndPoint s c \<longleftrightarrow> wallNeighbors s c \<le> 2"
proof -
  let ?P = "\<lambda>n. inBounds s n \<and> cellAt (mazeArray s) n = Some 1"
  let ?f = "\<lambda>d. (fst c + fst d, snd c + snd d)"
  have "length (filter (?P \<circ> ?f) (directions s)) = length (filter (?P \<circ> ?f) initialDirections)"
    using assms by (rule length_filter_mset)
  also have "\<dots> = length (filter ?P (map ?f initialDirections))"
    by (simp only: filter_map length_map)
  also have "\<dots> = length (filter ?P (getNeighbors c))"
    using neighbors_of_directions by (rule length_filter_mset)
  finally have "length (filter (?P \<circ> ?f) (directions s)) = wallNeighbors s c"
    by (simp only: wallNeighbors_def)
  moreover have "(?P \<circ> ?f) = (\<lambda>d. inBounds s (fst c + fst d, snd c + snd d)
                      \<and> cellAt (mazeArray s) (fst c + fst d, snd c + snd d) = Some 1)"
    by (simp add: fun_eq_iff)
  ultimately show ?thesis by (simp only: isValidStartEndPoint_count)
qed

subsection \<open>Carving keeps the passages connected\<close>

lemma genInv_wf: "genInv root s \<Longrightarrow> wellFormed s"
  by (simp add: genInv_def)

lemma genInv_binary: "genInv root s \<Longrightarrow> cellAt (mazeArray s) c = Some v \<Longrightarrow> v = 0 \<or> v = 1"
  unfolding genInv_def by blast

lemma genInv_ring: "genInv root s \<Longrightarrow> cellAt (mazeArray s) c = Some 0 \<Longrightarrow> isValidCell s (fst c) (snd c)"
  unfolding genInv_def by blast

lemma genInv_carved: "genInv root s \<Longrightarrow> cellAt (mazeArray s) c = Some 0 \<Longrightarrow> (step (mazeArray s))\<^sup>*\<^sup>* root c"
  unfolding genInv_def carved_def by blast

lemma grown_refl: "genInv root s \<Longrightarrow> grown root s s"
  by (simp add: grown_def)

lemma grown_trans: "grown root a b \<Longrightarrow> grown root b c \<Longrightarrow> grown root a c"
  unfolding grown_def by auto

lemma step_setCell:
  assumes "setCell board c 0 = Some board'" and "step board x y"
  shows "step board' x y"
  using assms(2) by (simp add: step_def cellAt_setCell[OF assms(1)])

lemma reach_setCell:
  assumes "setCell board c 0 = Some board'" and "(step board)\<^sup>*\<^sup>* x y"
  shows "(step board')\<^sup>*\<^sup>* x y"
  using assms(2)
proof (induction rule: rtranclp_induct)
  case base
  show ?case by simp
next
  case (step y z)
  from step_setCell[OF assms(1) step.hyps(2)] step.IH show ?case by simp
qed

lemma carvedD: "carved board root \<Longrightarrow> cellAt board c = Some 0 \<Longrightarrow> (step board)\<^sup>*\<^sup>* root c"
  unfolding carved_def by blast

lemma carved_set_root:
  assumes "carved board root" and "setCell board root 0 = Some board'"
  shows "carved board' root"
  unfolding carved_def
proof (intro allI impI)
  fix c assume c: "cellAt board' c = Some 0"
  show "(step board')\<^sup>*\<^sup>* root c"
  proof (cases "c = root")
    case True
    then show ?thesis by simp
  next
    case False
    with c have "cellAt board c = Some 0" by (simp add: cellAt_setCell[OF assms(2)])
    with assms(1) have "(step board)\<^sup>*\<^sup>* root c" by (rule carvedD)
    with assms(2) show ?thesis by (rule reach_setCell)
  qed
qed

lemma carved_set_adjacent:
  assumes "carved board root" and "cellAt board p = Some 0" and "adjacent p c"
    and "setCell board c 0 = Some board'"
  shows "carved board' root"
  unfolding carved_def
proof (intro allI impI)
  fix c' assume c': "cellAt board' c' = Some 0"
  show "(step board')\<^sup>*\<^sup>* root c'"
  proof (cases "c' = c")
    case True
    from assms(1,2) have "(step board)\<^sup>*\<^sup>* root p" by (rule carvedD)
    with assms(4) have "(step board')\<^sup>*\<^sup>* root p" by (rule reach_setCell)
    moreover have "adjacent p c \<Longrightarrow> p \<noteq> c" by (auto simp: adjacent_def)
    then have "step board' p c"
      using assms(2,3) by (simp add: step_def cellAt_setCell[OF assms(4)])
    ultimately show ?thesis using True by simp
  next
    case False
    with c' have "cellAt board c' = Some 0" by (simp add: cellAt_setCell[OF assms(4)])
    with assms(1) have "(step board)\<^sup>*\<^sup>* root c'" by (rule carvedD)
    with assms(4) show ?thesis by (rule reach_setCell)
  qed
qed

lemma isValidCell_inBounds: "isValidCell s cx cy \<Longrightarrow> inBounds s (cx, cy)"
  by (simp add: isValidCell_def inBounds_def)

lemma finite_cells:
  assumes "wellFormed s"
  shows "finite {c. cellAt (mazeArray s) c = Some v}"
proof -
  have "c \<in> {0..<int (width s)} \<times> {0..<int (height s)}" if "cellAt (mazeArray s) c = Some v" for c
  proof -
    from that have "inBounds s c" using cellAt_inBounds[OF assms, of c] by blast
    then show ?thesis by (cases c) (simp add: inBounds_def)
  qed
  then have "{c. cellAt (mazeArray s) c = Some v} \<subseteq> {0..<int (width s)} \<times> {0..<int (height s)}"
    by blast
  then show ?thesis by (rule finite_subset) simp
qed

lemma walls_setCell:
  assumes wf: "wellFormed s" and set: "setCell (mazeArray s) c 0 = Some a"
  shows "walls (s\<lparr>mazeArray := a\<rparr>) \<le> walls s"
    and "cellAt (mazeArray s) c = Some 1 \<Longrightarrow> walls (s\<lparr>mazeArray := a\<rparr>) < walls s"
proof -
  have eq: "{c'. cellAt a c' = Some 1} = {c'. cellAt (mazeArray s) c' = Some 1} - {c}"
    by (auto simp: cellAt_setCell[OF set])
  have fin: "finite {c'. cellAt (mazeArray s) c' = Some 1}" using wf by (rule finite_cells)
  show "walls (s\<lparr>mazeArray := a\<rparr>) \<le> walls s"
    unfolding walls_def using fin by (simp add: eq card_Diff1_le)
  assume "cellAt (mazeArray s) c = Some 1"
  then have "c \<in> {c'. cellAt (mazeArray s) c' = Some 1}" by simp
  with fin have "card ({c'. cellAt (mazeArray s) c' = Some 1} - {c}) < card {c'. cellAt (mazeArray s) c' = Some 1}"
    by (rule card_Diff1_less)
  then show "walls (s\<lparr>mazeArray := a\<rparr>) < walls s"
    unfolding walls_def by (simp add: eq)
qed

lemma isValidCell_update [simp]:
  "isValidCell (s\<lparr>mazeArray := a\<rparr>) cx cy = isValidCell s cx cy"
  by (simp add: isValidCell_def)

lemma set_cell_grown:
  assumes inv: "genInv root s" and v: "isValidCell s (fst c) (snd c)"
    and set: "setCell (mazeArray s) c 0 = Some a" and car: "carved a root"
  shows "grown root s (s\<lparr>mazeArray := a\<rparr>)"
proof -
  note ca = cellAt_setCell[OF set]
  have wf: "wellFormed (s\<lparr>mazeArray := a\<rparr>)"
    using genInv_wf[OF inv] setCell_shape[OF set] by (simp add: wellFormed_def)
  have bin: "v = 0 \<or> v = 1" if "cellAt a c' = Some v" for c' v
    using that genInv_binary[OF inv, of c' v] by (cases "c' = c") (simp_all add: ca)
  have ring: "isValidCell s (fst c') (snd c')" if "cellAt a c' = Some 0" for c'
    using that genInv_ring[OF inv, of c'] v by (cases "c' = c") (simp_all add: ca)
  have "genInv root (s\<lparr>mazeArray := a\<rparr>)"
    unfolding genInv_def using wf bin ring car by simp
  moreover have "cellAt a c' = Some 0" if "cellAt (mazeArray s) c' = Some 0" for c'
    using that by (simp add: ca)
  moreover have "walls (s\<lparr>mazeArray := a\<rparr>) \<le> walls s"
    using genInv_wf[OF inv] set by (rule walls_setCell)
  ultimately show ?thesis by (simp add: grown_def)
qed

lemma genInv_setCell_defined:
  "genInv root s \<Longrightarrow> isValidCell s (fst c) (snd c) \<Longrightarrow> \<exists>a. setCell (mazeArray s) c 0 = Some a"
  using setCell_defined[of s c 0] isValidCell_inBounds[of s "fst c" "snd c"]
  by (simp add: genInv_wf)

lemma genInv_shuffle:
  assumes "genInv root s"
  shows "genInv root (shuffleDirections rnd s)"
proof -
  have m: "mset (directions s) = mset initialDirections"
    using genInv_wf[OF assms] by (simp add: wellFormed_def)
  note k = shuffleDirections_keeps[OF m, of rnd]
  from assms show ?thesis
    unfolding genInv_def wellFormed_def isValidCell_def by (simp add: k)
qed

lemma grown_shuffle:
  assumes "genInv root s"
  shows "grown root s (shuffleDirections rnd s)" and "grown root (shuffleDirections rnd s) s"
proof -
  have m: "mset (directions s) = mset initialDirections"
    using genInv_wf[OF assms] by (simp add: wellFormed_def)
  note k = shuffleDirections_keeps[OF m, of rnd]
  show "grown root s (shuffleDirections rnd s)"
    using genInv_shuffle[OF assms, of rnd] by (simp add: grown_def k walls_def)
  show "grown root (shuffleDirections rnd s) s"
    using assms by (simp add: grown_def k walls_def)
qed

lemma midpoint_valid:
  "isValidCell s cx cy \<Longrightarrow> isValidCell s (cx + dx * 2) (cy + dy * 2) \<Longrightarrow>
     isValidCell s (cx + dx) (cy + dy)"
  by (auto simp: isValidCell_def)

lemma isValidCell_grown: "grown root s s' \<Longrightarrow> isValidCell s' cx cy = isValidCell s cx cy"
  by (simp add: grown_def isValidCell_def)

lemma grown_inv: "grown root s s' \<Longrightarrow> genInv root s'"
  by (simp add: grown_def)

lemma grown_walls: "grown root s s' \<Longrightarrow> walls s' \<le> walls s"
  by (simp add: grown_def)

lemma grown_passable:
  "grown root s s' \<Longrightarrow> cellAt (mazeArray s) c = Some 0 \<Longrightarrow> cellAt (mazeArray s') c = Some 0"
  unfolding grown_def by blast

lemma unit_adjacent:
  "d \<in> {(0, 1), (1, 0), (0, -1), (-1, 0)} \<Longrightarrow> adjacent (cx, cy) (cx + fst d, cy + snd d)"
  by (auto simp: adjacent_def)

lemma unit_nonzero:
  "d \<in> {(0, 1), (1, 0), (0, -1), (-1, 0)} \<Longrightarrow>
     (cx + fst d * 2, cy + snd d * 2) \<noteq> ((cx :: int) + fst d, (cy :: int) + snd d)"
  by auto

lemma forDirections_grown:
  assumes rb: "\<And>c s a. isValidCell s (fst c) (snd c) \<Longrightarrow> cellAt (mazeArray s) c = Some 1 \<Longrightarrow>
      setCell (mazeArray s) c 0 = Some a \<Longrightarrow> genInv root (s\<lparr>mazeArray := a\<rparr>) \<Longrightarrow>
      (walls s \<le> fuel \<longrightarrow> (\<exists>s'. recursiveBacktrack rnd fuel c s = Inr s'))
      \<and> (\<forall>s'. recursiveBacktrack rnd fuel c s = Inr s' \<longrightarrow> grown root (s\<lparr>mazeArray := a\<rparr>) s')"
  shows "isValidCell s (fst coord) (snd coord) \<Longrightarrow> cellAt (mazeArray s) coord = Some 0 \<Longrightarrow>
      genInv root s \<Longrightarrow>
      (walls s \<le> fuel \<longrightarrow> (\<exists>s'. forDirections rnd fuel coord i s = Inr s'))
      \<and> (\<forall>s'. forDirections rnd fuel coord i s = Inr s' \<longrightarrow> grown root s s')"
proof (induction "4 - i" arbitrary: i s)
  case 0
  then have "forDirections rnd fuel coord i s = Inr s"
    by (simp add: forDirections.simps[of rnd fuel coord i s])
  with "0.prems"(3) show ?case by (simp add: grown_refl)
next
  case (Suc k)
  note valid = Suc.prems(1) and pass = Suc.prems(2) and inv = Suc.prems(3)
  from Suc.hyps(2) have i4: "i < 4" and k: "k = 4 - (i + 1)" by simp_all
  obtain cx cy where coord: "coord = (cx, cy)" by (cases coord)
  obtain dx dy where d: "directions s ! i = (dx, dy)" by (cases "directions s ! i")
  have m: "mset (directions s) = mset initialDirections"
    using genInv_wf[OF inv] by (simp add: wellFormed_def)
  have len: "i < length (directions s)" using dirs_length[OF m] i4 by simp
  have unit: "(dx, dy) \<in> {(0, 1), (1, 0), (0, -1), (-1, 0)}"
    using dirs_unit[OF m i4] d by simp
  let ?new = "(cx + dx * 2, cy + dy * 2)"
  let ?mid = "(cx + dx, cy + dy)"
  show ?case
  proof (cases "isValidCell s (cx + dx * 2) (cy + dy * 2) \<and> cellAt (mazeArray s) ?new = Some 1")
    case False
    then have "forDirections rnd fuel coord i s = forDirections rnd fuel coord (i + 1) s"
      using i4 len d by (auto simp: forDirections.simps[of rnd fuel "(cx, cy)" i s] coord Let_def)
    with Suc.hyps(1)[OF k valid pass inv] show ?thesis by simp
  next
    case True
    then have newv: "isValidCell s (cx + dx * 2) (cy + dy * 2)"
      and neww: "cellAt (mazeArray s) ?new = Some 1" by simp_all
    have midv: "isValidCell s (fst ?mid) (snd ?mid)"
      using valid newv by (simp add: coord midpoint_valid)
    from genInv_setCell_defined[OF inv midv] obtain a where a: "setCell (mazeArray s) ?mid 0 = Some a"
      by blast
    have adj1: "adjacent coord ?mid" using unit_adjacent[OF unit, of cx cy] by (simp add: coord)
    have "carved (mazeArray s) root" using inv by (simp add: genInv_def)
    then have car2: "carved a root" using pass adj1 a by (rule carved_set_adjacent)
    let ?s2 = "s\<lparr>mazeArray := a\<rparr>"
    have g2: "grown root s ?s2" using inv midv a car2 by (rule set_cell_grown)
    have inv2: "genInv root ?s2" using g2 by (rule grown_inv)
    have neq: "?new \<noteq> ?mid" using unit_nonzero[OF unit, of cx cy] by simp
    have neww2: "cellAt (mazeArray ?s2) ?new = Some 1"
      using neww neq by (simp add: cellAt_setCell[OF a])
    have mid0: "cellAt a ?mid = Some 0" by (simp add: cellAt_setCell[OF a])
    have newv2: "isValidCell ?s2 (fst ?new) (snd ?new)" using newv by simp
    from genInv_setCell_defined[OF inv2 newv2] obtain a' where a': "setCell a ?new 0 = Some a'"
      by auto
    have adj2: "adjacent ?mid ?new" using unit by (auto simp: adjacent_def)
    have car3: "carved a' root" using car2 mid0 adj2 a' by (rule carved_set_adjacent)
    have a2': "setCell (mazeArray ?s2) ?new 0 = Some a'" using a' by simp
    have g3: "grown root ?s2 (?s2\<lparr>mazeArray := a'\<rparr>)"
      using inv2 newv2 a2' car3 by (rule set_cell_grown)
    note r = rb[OF newv2 neww2 a2' grown_inv[OF g3]]
    have unfold: "forDirections rnd fuel coord i s =
        (case recursiveBacktrack rnd fuel ?new ?s2 of
           Inl err \<Rightarrow> Inl err
         | Inr s' \<Rightarrow> forDirections rnd fuel coord (i + 1) s')"
      unfolding coord
      using i4 len d True a by (simp add: forDirections.simps[of rnd fuel "(cx, cy)" i s] Let_def)
    have after: "grown root s s1 \<and>
         (walls s1 \<le> fuel \<longrightarrow> (\<exists>s'. forDirections rnd fuel coord (i + 1) s1 = Inr s'))
         \<and> (\<forall>s'. forDirections rnd fuel coord (i + 1) s1 = Inr s' \<longrightarrow> grown root s1 s')"
      if s1: "recursiveBacktrack rnd fuel ?new ?s2 = Inr s1" for s1
    proof -
      from r s1 have "grown root (?s2\<lparr>mazeArray := a'\<rparr>) s1" by blast
      with g2 g3 have g: "grown root s s1" by (blast intro: grown_trans)
      have v1: "isValidCell s1 (fst coord) (snd coord)" using valid by (simp add: isValidCell_grown[OF g])
      have p1: "cellAt (mazeArray s1) coord = Some 0" using g pass by (rule grown_passable)
      from Suc.hyps(1)[OF k v1 p1 grown_inv[OF g]] g show ?thesis by simp
    qed
    have total: "\<exists>s'. forDirections rnd fuel coord i s = Inr s'" if w: "walls s \<le> fuel"
    proof -
      have "walls ?s2 \<le> fuel" using grown_walls[OF g2] w by simp
      with r obtain s1 where s1: "recursiveBacktrack rnd fuel ?new ?s2 = Inr s1" by blast
      from after[OF s1] have "grown root s s1" by simp
      then have "walls s1 \<le> walls s" by (rule grown_walls)
      with after[OF s1] w obtain sf where "forDirections rnd fuel coord (i + 1) s1 = Inr sf"
        by auto
      with s1 show ?thesis by (simp add: unfold)
    qed
    have partial: "grown root s sf" if sf: "forDirections rnd fuel coord i s = Inr sf" for sf
    proof (cases "recursiveBacktrack rnd fuel ?new ?s2")
      case (Inl err)
      with sf show ?thesis by (simp add: unfold)
    next
      case (Inr s1)
      with sf have "forDirections rnd fuel coord (i + 1) s1 = Inr sf" by (simp add: unfold)
      with after[OF Inr] show ?thesis by (blast intro: grown_trans)
    qed
    from total partial show ?thesis by blast
  qed
qed

lemma wellFormed_setCell:
  "setCell (mazeArray s) c v = Some a \<Longrightarrow> wellFormed (s\<lparr>mazeArray := a\<rparr>) = wellFormed s"
  using setCell_shape[of "mazeArray s" c v a] by (simp add: wellFormed_def)

lemma recursiveBacktrack_grown:
  "isValidCell s (fst c) (snd c) \<Longrightarrow> cellAt (mazeArray s) c = Some 1 \<Longrightarrow>
     setCell (mazeArray s) c 0 = Some a \<Longrightarrow> genInv root (s\<lparr>mazeArray := a\<rparr>) \<Longrightarrow>
     (walls s \<le> fuel \<longrightarrow> (\<exists>s'. recursiveBacktrack rnd fuel c s = Inr s'))
     \<and> (\<forall>s'. recursiveBacktrack rnd fuel c s = Inr s' \<longrightarrow> grown root (s\<lparr>mazeArray := a\<rparr>) s')"
proof (induction fuel arbitrary: c s a)
  case 0
  have wf: "wellFormed s" using genInv_wf[OF "0.prems"(4)] wellFormed_setCell[OF "0.prems"(3)] by simp
  have "c \<in> {c'. cellAt (mazeArray s) c' = Some 1}" using "0.prems"(2) by simp
  moreover have "finite {c'. cellAt (mazeArray s) c' = Some 1}" using wf by (rule finite_cells)
  ultimately have "card {c'. cellAt (mazeArray s) c' = Some 1} \<noteq> 0"
    by (metis card_0_eq empty_iff)
  then have "\<not> walls s \<le> 0" by (simp add: walls_def)
  then show ?case by simp
next
  case (Suc n)
  note valid = Suc.prems(1) and wall = Suc.prems(2) and set = Suc.prems(3) and inv = Suc.prems(4)
  let ?s0 = "s\<lparr>mazeArray := a\<rparr>"
  let ?s1 = "shuffleDirections rnd ?s0"
  have wf: "wellFormed s" using genInv_wf[OF inv] wellFormed_setCell[OF set] by simp
  have eq: "recursiveBacktrack rnd (Suc n) c s = forDirections rnd n c 0 ?s1"
    using set by simp
  have g01: "grown root ?s0 ?s1" using inv by (rule grown_shuffle)
  have inv1: "genInv root ?s1" using g01 by (rule grown_inv)
  have v1: "isValidCell ?s1 (fst c) (snd c)" using valid by (simp add: isValidCell_grown[OF g01])
  have "cellAt (mazeArray ?s0) c = Some 0" by (simp add: cellAt_setCell[OF set])
  with g01 have p1: "cellAt (mazeArray ?s1) c = Some 0" by (rule grown_passable)
  note loop = forDirections_grown[of root n rnd ?s1 c 0, OF Suc.IH v1 p1 inv1]
  have w1: "walls ?s1 \<le> n" if "walls s \<le> Suc n"
  proof -
    have "walls ?s0 < walls s" using wf set wall by (rule walls_setCell)
    with grown_walls[OF g01] that show ?thesis by simp
  qed
  have "grown root ?s0 s'" if "recursiveBacktrack rnd (Suc n) c s = Inr s'" for s'
    using that loop g01 unfolding eq by (blast intro: grown_trans)
  with loop w1 show ?case unfolding eq by blast
qed

lemma cellAt_new:
  "cellAt (mazeArray (newMazeGenerator w h dirs)) (cx, cy) =
     (if 0 \<le> cy \<and> cy < int h \<and> 0 \<le> cx \<and> cx < int w then Some 1 else None)"
  by (auto simp: cellAt_def newMazeGenerator_def Let_def)

lemma genInv_new:
  assumes "mset dirs = mset initialDirections"
  shows "genInv root (newMazeGenerator w h dirs)"
proof -
  have c: "v = 1" if "cellAt (mazeArray (newMazeGenerator w h dirs)) c = Some v" for c v
    using that by (cases c) (simp add: cellAt_new split: if_splits)
  have "wellFormed (newMazeGenerator w h dirs)"
    using assms by (simp add: wellFormed_def newMazeGenerator_def list_all_length)
  moreover have "carved (mazeArray (newMazeGenerator w h dirs)) root"
    unfolding carved_def using c by fastforce
  ultimately show ?thesis unfolding genInv_def using c by fastforce
qed

lemma genInv_draws: "genInv root (s\<lparr>draws := d\<rparr>) = genInv root s"
  by (simp add: genInv_def wellFormed_def isValidCell_def)

lemma walls_bound:
  assumes "wellFormed s"
  shows "walls s \<le> width s * height s"
proof -
  have "c \<in> {0..<int (width s)} \<times> {0..<int (height s)}" if "cellAt (mazeArray s) c = Some 1" for c
  proof -
    from that have "inBounds s c" using cellAt_inBounds[OF assms, of c] by blast
    then show ?thesis by (cases c) (simp add: inBounds_def)
  qed
  then have "{c. cellAt (mazeArray s) c = Some 1} \<subseteq> {0..<int (width s)} \<times> {0..<int (height s)}"
    by blast
  then have "card {c. cellAt (mazeArray s) c = Some 1} \<le> card ({0..<int (width s)} \<times> {0..<int (height s)})"
    by (intro card_mono) simp_all
  then show ?thesis by (simp add: walls_def)
qed

lemma carve_grown:
  assumes w: "3 \<le> w" and h: "3 \<le> h" and dirs: "mset dirs = mset initialDirections"
  shows "(w * h \<le> fuel \<longrightarrow> (\<exists>s'. carve rnd fuel (newMazeGenerator w h dirs) = Inr s'))
    \<and> (\<forall>s'. carve rnd fuel (newMazeGenerator w h dirs) = Inr s' \<longrightarrow>
          (\<exists>root. genInv root s' \<and> width s' = w \<and> height s' = h))"
proof -
  let ?s0 = "newMazeGenerator w h dirs"
  obtain rx s1 where r1: "randomFloor rnd ((int (width ?s0) - 1) div 2) ?s0 = (rx, s1)"
    by (cases "randomFloor rnd ((int (width ?s0) - 1) div 2) ?s0")
  obtain ry s2 where r2: "randomFloor rnd ((int (height ?s0) - 1) div 2) s1 = (ry, s2)"
    by (cases "randomFloor rnd ((int (height ?s0) - 1) div 2) s1")
  have s1: "s1 = ?s0\<lparr>draws := draws ?s0 + 1\<rparr>"
    using randomFloor_state[of rnd "(int (width ?s0) - 1) div 2" ?s0] r1 by simp
  have s2: "s2 = s1\<lparr>draws := draws s1 + 1\<rparr>"
    using randomFloor_state[of rnd "(int (height ?s0) - 1) div 2" s1] r2 by simp
  have dims: "width s2 = w" "height s2 = h" "mazeArray s2 = mazeArray ?s0"
    by (simp_all add: s1 s2 newMazeGenerator_def)
  have wpos: "0 < (int w - 1) div 2" and hpos: "0 < (int h - 1) div 2" using w h by simp_all
  have rx: "0 \<le> rx" "rx < (int w - 1) div 2"
    using randomFloor_range[OF wpos, of rnd ?s0] r1 by (simp_all add: newMazeGenerator_def)
  have ry: "0 \<le> ry" "ry < (int h - 1) div 2"
    using randomFloor_range[OF hpos, of rnd s1] r2 by (simp_all add: newMazeGenerator_def)
  let ?root = "(1 + rx * 2, 1 + ry * 2)"
  have eq: "carve rnd fuel ?s0 = recursiveBacktrack rnd fuel ?root s2"
    by (simp add: carve_def r1 r2)
  have xb: "2 + rx * 2 < int w" using rx by presburger
  have yb: "2 + ry * 2 < int h" using ry by presburger
  from xb yb have valid: "isValidCell s2 (fst ?root) (snd ?root)"
    using rx ry by (simp add: isValidCell_def dims)
  have inv2: "genInv ?root s2"
    using genInv_new[OF dirs, of ?root w h] by (simp add: s1 s2 genInv_draws)
  have wall: "cellAt (mazeArray s2) ?root = Some 1"
    using rx ry xb yb by (simp add: dims cellAt_new)
  from genInv_setCell_defined[OF inv2 valid] obtain a where a: "setCell (mazeArray s2) ?root 0 = Some a"
    by blast
  have "carved (mazeArray s2) ?root" using inv2 by (simp add: genInv_def)
  then have "carved a ?root" using a by (rule carved_set_root)
  with inv2 valid a have "grown ?root s2 (s2\<lparr>mazeArray := a\<rparr>)" by (rule set_cell_grown)
  then have inv3: "genInv ?root (s2\<lparr>mazeArray := a\<rparr>)" by (rule grown_inv)
  note rb = recursiveBacktrack_grown[OF valid wall a inv3, of fuel rnd]
  have "walls s2 \<le> w * h" using walls_bound[OF genInv_wf[OF inv2]] by (simp add: dims)
  moreover have "genInv ?root s' \<and> width s' = w \<and> height s' = h"
    if "recursiveBacktrack rnd fuel ?root s2 = Inr s'" for s'
  proof -
    from rb that have "grown ?root (s2\<lparr>mazeArray := a\<rparr>) s'" by blast
    then show ?thesis by (simp add: grown_def dims)
  qed
  ultimately show ?thesis using rb unfolding eq by fastforce
qed

subsection \<open>Placement of the entrance and the exit\<close>

lemma getRandomSizeCoordinate_state:
  "snd (getRandomSizeCoordinate rnd side s) = s\<lparr>draws := draws s + 1\<rparr>"
  by (cases side) (simp_all add: getRandomSizeCoordinate_def randomFloor_def)

lemma getRandomSizeCoordinate_onSide:
  assumes "3 \<le> width s" and "3 \<le> height s"
  shows "onSide s side (fst (getRandomSizeCoordinate rnd side s))"
proof -
  have w: "0 < int (width s) - 2" and h: "0 < int (height s) - 2" using assms by simp_all
  note rw = randomFloor_range[OF w, of rnd s] and rh = randomFloor_range[OF h, of rnd s]
  show ?thesis
    using rw rh by (cases side) (auto simp: getRandomSizeCoordinate_def onSide_def split: prod.splits)
qed

lemma isValidStartEndPoint_draws [simp]:
  "isValidStartEndPoint (s\<lparr>draws := d\<rparr>) c = isValidStartEndPoint s c"
  by (simp add: isValidStartEndPoint_def)

lemma onSide_draws [simp]: "onSide (s\<lparr>draws := d\<rparr>) side c = onSide s side c"
  by (cases side) (simp_all add: onSide_def)

lemma placementLoop_valid:
  "placementLoop rnd side coord True attempts s = (coord, True, attempts, s)"
  by (subst placementLoop.simps) simp

lemma placementLoop_result:
  "placementLoop rnd side coord isValid attempts s = (coord', isValid', attempts', s') \<Longrightarrow>
     attempts \<le> maxAttempts \<Longrightarrow> 3 \<le> width s \<Longrightarrow> 3 \<le> height s \<Longrightarrow>
     attempts \<le> attempts' \<and> attempts' \<le> maxAttempts
     \<and> s' = s\<lparr>draws := draws s + (attempts' - attempts)\<rparr>
     \<and> (\<not> isValid' \<longrightarrow> attempts' = maxAttempts)
     \<and> (isValid' \<longrightarrow> isValid \<or> (\<exists>c. coord' = Some c \<and> isValidStartEndPoint s c \<and> onSide s side c))"
proof (induction rnd side coord isValid attempts s rule: placementLoop.induct)
  case (1 rnd side coord isValid attempts s)
  show ?case
  proof (cases "\<not> isValid \<and> attempts < maxAttempts")
    case False
    with "1.prems" show ?thesis
      by (auto simp: placementLoop.simps[of rnd side coord isValid attempts s])
  next
    case True
    obtain c s1 where g: "getRandomSizeCoordinate rnd side s = (c, s1)"
      by (cases "getRandomSizeCoordinate rnd side s")
    have s1: "s1 = s\<lparr>draws := draws s + 1\<rparr>"
      using getRandomSizeCoordinate_state[of rnd side s] g by simp
    have on: "onSide s side c"
      using getRandomSizeCoordinate_onSide[OF "1.prems"(3,4), of side rnd] g by simp
    have loop: "placementLoop rnd side (Some c) (isValidStartEndPoint s1 c) (attempts + 1) s1
        = (coord', isValid', attempts', s')"
      using "1.prems"(1) True g by (subst (asm) placementLoop.simps) simp
    have "attempts + 1 \<le> maxAttempts" using True by simp
    moreover have "3 \<le> width s1" "3 \<le> height s1" using "1.prems"(3,4) by (simp_all add: s1)
    ultimately have ih: "attempts + 1 \<le> attempts' \<and> attempts' \<le> maxAttempts
       \<and> s' = s1\<lparr>draws := draws s1 + (attempts' - (attempts + 1))\<rparr>
       \<and> (\<not> isValid' \<longrightarrow> attempts' = maxAttempts)
       \<and> (isValid' \<longrightarrow> isValidStartEndPoint s1 c
             \<or> (\<exists>c'. coord' = Some c' \<and> isValidStartEndPoint s1 c' \<and> onSide s1 side c'))"
      using "1.IH"[OF True g[symmetric] loop] by blast
    have c': "coord' = Some c" if "isValid'" "isValidStartEndPoint s1 c"
      using loop that by (simp add: placementLoop_valid)
    have acc: "\<exists>c. coord' = Some c \<and> isValidStartEndPoint s c \<and> onSide s side c" if v: "isValid'"
    proof (cases "isValidStartEndPoint s1 c")
      case True
      with c'[OF v] on show ?thesis by (intro exI[of _ c]) (simp add: s1)
    next
      case False
      with ih v obtain c2 where "coord' = Some c2" "isValidStartEndPoint s1 c2" "onSide s1 side c2"
        by blast
      then show ?thesis by (intro exI[of _ c2]) (simp add: s1)
    qed
    have "attempts \<le> attempts'" "attempts' \<le> maxAttempts" "\<not> isValid' \<longrightarrow> attempts' = maxAttempts"
      using ih by simp_all
    moreover have "s' = s\<lparr>draws := draws s + (attempts' - attempts)\<rparr>"
    proof -
      from ih have le: "attempts + 1 \<le> attempts'"
        and e: "s' = s1\<lparr>draws := draws s1 + (attempts' - (attempts + 1))\<rparr>" by simp_all
      from le have "draws s + 1 + (attempts' - (attempts + 1)) = draws s + (attempts' - attempts)"
        by simp
      with e show ?thesis by (simp add: s1)
    qed
    ultimately show ?thesis using acc by blast
  qed
qed

lemma placementLoop_all_rejected:
  "\<forall>k. attempts \<le> k \<and> k < maxAttempts \<longrightarrow> \<not> isValidStartEndPoint s0 (sample rnd side s0 k) \<Longrightarrow>
     attempts \<le> maxAttempts \<Longrightarrow>
     \<exists>coord'. placementLoop rnd side coord False attempts (s0\<lparr>draws := draws s0 + attempts\<rparr>)
        = (coord', False, maxAttempts, s0\<lparr>draws := draws s0 + maxAttempts\<rparr>)"
proof (induction "maxAttempts - attempts" arbitrary: attempts coord)
  case 0
  then have "attempts = maxAttempts" by simp
  then show ?case
    by (simp add: placementLoop.simps[of rnd side coord False maxAttempts])
next
  case (Suc n)
  let ?s = "s0\<lparr>draws := draws s0 + attempts\<rparr>"
  from Suc.hyps(2) have lt: "attempts < maxAttempts" by simp
  obtain c s1 where g: "getRandomSizeCoordinate rnd side ?s = (c, s1)"
    by (cases "getRandomSizeCoordinate rnd side ?s")
  have s1: "s1 = s0\<lparr>draws := draws s0 + (attempts + 1)\<rparr>"
    using getRandomSizeCoordinate_state[of rnd side ?s] g by simp
  have c: "c = sample rnd side s0 attempts" using g by (simp add: sample_def)
  have rej: "\<not> isValidStartEndPoint s1 c" using Suc.prems(1) lt by (simp add: c s1)
  have "n = maxAttempts - (attempts + 1)" using Suc.hyps(2) by simp
  moreover have "\<forall>k. attempts + 1 \<le> k \<and> k < maxAttempts \<longrightarrow> \<not> isValidStartEndPoint s0 (sample rnd side s0 k)"
    using Suc.prems(1) by simp
  moreover have "attempts + 1 \<le> maxAttempts" using lt by simp
  ultimately obtain coord' where
    "placementLoop rnd side (Some c) False (attempts + 1) (s0\<lparr>draws := draws s0 + (attempts + 1)\<rparr>)
        = (coord', False, maxAttempts, s0\<lparr>draws := draws s0 + maxAttempts\<rparr>)"
    using Suc.hyps(1)[of "attempts + 1" "Some c"] by blast
  with lt g rej show ?case
    by (simp add: placementLoop.simps[of rnd side coord False attempts ?s] s1)
qed

lemma createStartAndEndCoordinate_result:
  assumes "3 \<le> width s" and "3 \<le> height s"
  shows "createStartAndEndCoordinate rnd side s = Inl FailedToCreateUsableMaze
     \<or> (\<exists>c d. createStartAndEndCoordinate rnd side s = Inr (c, s\<lparr>draws := d\<rparr>)
            \<and> isValidStartEndPoint s c \<and> onSide s side c)"
proof -
  obtain coord' v' a' s' where p: "placementLoop rnd side None False 0 s = (coord', v', a', s')"
    by (cases "placementLoop rnd side None False 0 s") auto
  note r = placementLoop_result[OF p _ assms]
  show ?thesis
  proof (cases v')
    case False
    with p show ?thesis by (simp add: createStartAndEndCoordinate_def)
  next
    case True
    with r obtain c where c: "coord' = Some c" "isValidStartEndPoint s c" "onSide s side c"
      by auto
    from r have "s' = s\<lparr>draws := draws s + (a' - 0)\<rparr>" by simp
    with p True c show ?thesis
      by (intro disjI2 exI[of _ c] exI[of _ "draws s + (a' - 0)"])
         (simp add: createStartAndEndCoordinate_def)
  qed
qed

lemma boundary_is_wall:
  assumes "genInv root s" and "inBounds s c" and "\<not> isValidCell s (fst c) (snd c)"
  shows "cellAt (mazeArray s) c = Some 1"
proof -
  from cellAt_inBounds[OF genInv_wf[OF assms(1)], of c] assms(2)
  obtain v where v: "cellAt (mazeArray s) c = Some v" by blast
  with genInv_ring[OF assms(1), of c] assms(3) have "v \<noteq> 0" by auto
  with genInv_binary[OF assms(1) v] v show ?thesis by simp
qed

lemma not_wall_is_passage:
  assumes "genInv root s" and "inBounds s c" and "cellAt (mazeArray s) c \<noteq> Some 1"
  shows "cellAt (mazeArray s) c = Some 0"
proof -
  from cellAt_inBounds[OF genInv_wf[OF assms(1)], of c] assms(2)
  obtain v where v: "cellAt (mazeArray s) c = Some v" by blast
  with genInv_binary[OF assms(1) v] assms(3) show ?thesis by auto
qed

lemma accepted_has_passage:
  assumes inv: "genInv root s" and w: "3 \<le> width s" and h: "3 \<le> height s"
    and on: "onSide s side c" and acc: "isValidStartEndPoint s c"
  shows "cellAt (mazeArray s) (inward side c) = Some 0 \<and> adjacent c (inward side c)
     \<and> inBounds s c"
proof -
  obtain cx cy where c: "c = (cx, cy)" by (cases c)
  have m: "mset (directions s) = mset initialDirections"
    using genInv_wf[OF inv] by (simp add: wellFormed_def)
  let ?P = "\<lambda>n. inBounds s n \<and> cellAt (mazeArray s) n = Some 1"
  from acc have cnt: "length (filter ?P [(cx - 1, cy), (cx + 1, cy), (cx, cy - 1), (cx, cy + 1)]) \<le> 2"
    by (simp add: accepted_iff_wallNeighbors[OF m] wallNeighbors_def getNeighbors_def c)
  have wallP: "?P n" if "inBounds s n" "\<not> isValidCell s (fst n) (snd n)" for n
    using boundary_is_wall[OF inv that] that(1) by simp
  show ?thesis
  proof (cases side)
    case Top
    with on c have b: "cy = 0" "1 \<le> cx" "cx \<le> int (width s) - 2" by (simp_all add: onSide_def)
    have "?P (cx - 1, cy)" "?P (cx + 1, cy)"
      using wallP[of "(cx - 1, cy)"] wallP[of "(cx + 1, cy)"] b w h
      by (simp_all add: inBounds_def isValidCell_def)
    with cnt have "\<not> ?P (cx, cy + 1)" by (auto split: if_splits)
    moreover have "inBounds s (cx, cy + 1)" using b w h by (simp add: inBounds_def)
    ultimately have "cellAt (mazeArray s) (cx, cy + 1) = Some 0"
      using not_wall_is_passage[OF inv] by blast
    then show ?thesis using Top b w h by (simp add: inward_def c adjacent_def inBounds_def)
  next
    case Right
    with on c have b: "cx = int (width s) - 1" "1 \<le> cy" "cy \<le> int (height s) - 2"
      by (simp_all add: onSide_def)
    have "?P (cx, cy - 1)" "?P (cx, cy + 1)"
      using wallP[of "(cx, cy - 1)"] wallP[of "(cx, cy + 1)"] b w h
      by (simp_all add: inBounds_def isValidCell_def)
    with cnt have "\<not> ?P (cx - 1, cy)" by (auto split: if_splits)
    moreover have "inBounds s (cx - 1, cy)" using b w h by (simp add: inBounds_def)
    ultimately have "cellAt (mazeArray s) (cx - 1, cy) = Some 0"
      using not_wall_is_passage[OF inv] by blast
    then show ?thesis using Right b w h by (simp add: inward_def c adjacent_def inBounds_def)
  next
    case Bottom
    with on c have b: "cy = int (height s) - 1" "1 \<le> cx" "cx \<le> int (width s) - 2"
      by (simp_all add: onSide_def)
    have "?P (cx - 1, cy)" "?P (cx + 1, cy)"
      using wallP[of "(cx - 1, cy)"] wallP[of "(cx + 1, cy)"] b w h
      by (simp_all add: inBounds_def isValidCell_def)
    with cnt have "\<not> ?P (cx, cy - 1)" by (auto split: if_splits)
    moreover have "inBounds s (cx, cy - 1)" using b w h by (simp add: inBounds_def)
    ultimately have "cellAt (mazeArray s) (cx, cy - 1) = Some 0"
      using not_wall_is_passage[OF inv] by blast
    then show ?thesis using Bottom b w h by (simp add: inward_def c adjacent_def inBounds_def)
  next
    case Left
    with on c have b: "cx = 0" "1 \<le> cy" "cy \<le> int (height s) - 2" by (simp_all add: onSide_def)
    have "?P (cx, cy - 1)" "?P (cx, cy + 1)"
      using wallP[of "(cx, cy - 1)"] wallP[of "(cx, cy + 1)"] b w h
      by (simp_all add: inBounds_def isValidCell_def)
    with cnt have "\<not> ?P (cx + 1, cy)" by (auto split: if_splits)
    moreover have "inBounds s (cx + 1, cy)" using b w h by (simp add: inBounds_def)
    ultimately have "cellAt (mazeArray s) (cx + 1, cy) = Some 0"
      using not_wall_is_passage[OF inv] by blast
    then show ?thesis using Left b w h by (simp add: inward_def c adjacent_def inBounds_def)
  qed
qed

lemma pickSides_state: "snd (snd (pickSides rnd s)) = s\<lparr>draws := draws s + 2\<rparr>"
  by (simp add: pickSides_def randomFloor_def Let_def)

lemma onSide_inBounds: "3 \<le> width s \<Longrightarrow> 3 \<le> height s \<Longrightarrow> onSide s side c \<Longrightarrow> inBounds s c"
  by (cases side) (auto simp: onSide_def inBounds_def)

lemma inBounds_update [simp]:
  "inBounds (s\<lparr>mazeArray := a\<rparr>) c = inBounds s c" "inBounds (s\<lparr>draws := d\<rparr>) c = inBounds s c"
  by (simp_all add: inBounds_def)

lemma wellFormed_draws [simp]: "wellFormed (s\<lparr>draws := d\<rparr>) = wellFormed s"
  by (simp add: wellFormed_def)

lemma createStartAndEnd_result:
  assumes wf: "wellFormed s" and w: "3 \<le> width s" and h: "3 \<le> height s"
  shows "createStartAndEnd rnd s = Inl FailedToCreateUsableMaze
     \<or> (\<exists>st en a a' d sideS sideE.
           createStartAndEnd rnd s = Inr (st, en, s\<lparr>draws := d, mazeArray := a'\<rparr>)
           \<and> setCell (mazeArray s) st 0 = Some a \<and> setCell a en 0 = Some a'
           \<and> onSide s sideS st \<and> isValidStartEndPoint s st
           \<and> onSide s sideE en \<and> isValidStartEndPoint s en)"
proof -
  obtain sideS sideE s1 where p: "pickSides rnd s = (sideS, sideE, s1)"
    by (cases "pickSides rnd s") auto
  have s1: "s1 = s\<lparr>draws := draws s + 2\<rparr>" using pickSides_state[of rnd s] p by simp
  have d1: "3 \<le> width s1" "3 \<le> height s1" using w h by (simp_all add: s1)
  from createStartAndEndCoordinate_result[OF d1, of rnd sideS] show ?thesis
  proof
    assume "createStartAndEndCoordinate rnd sideS s1 = Inl FailedToCreateUsableMaze"
    with p show ?thesis by (simp add: createStartAndEnd_def)
  next
    assume "\<exists>c d. createStartAndEndCoordinate rnd sideS s1 = Inr (c, s1\<lparr>draws := d\<rparr>)
            \<and> isValidStartEndPoint s1 c \<and> onSide s1 sideS c"
    then obtain st d2 where st: "createStartAndEndCoordinate rnd sideS s1 = Inr (st, s1\<lparr>draws := d2\<rparr>)"
      "isValidStartEndPoint s st" "onSide s sideS st"
      by (auto simp: s1)
    let ?s2 = "s1\<lparr>draws := d2\<rparr>"
    have s2: "?s2 = s\<lparr>draws := d2\<rparr>" by (simp add: s1)
    have d2: "3 \<le> width ?s2" "3 \<le> height ?s2" using w h by (simp_all add: s1)
    from createStartAndEndCoordinate_result[OF d2, of rnd sideE] show ?thesis
    proof
      assume "createStartAndEndCoordinate rnd sideE ?s2 = Inl FailedToCreateUsableMaze"
      with p st(1) show ?thesis by (simp add: createStartAndEnd_def)
    next
      assume "\<exists>c d. createStartAndEndCoordinate rnd sideE ?s2 = Inr (c, ?s2\<lparr>draws := d\<rparr>)
            \<and> isValidStartEndPoint ?s2 c \<and> onSide ?s2 sideE c"
      then obtain en d3 where en: "createStartAndEndCoordinate rnd sideE ?s2 = Inr (en, ?s2\<lparr>draws := d3\<rparr>)"
        "isValidStartEndPoint s en" "onSide s sideE en"
        by (auto simp: s1)
      let ?s3 = "?s2\<lparr>draws := d3\<rparr>"
      have m3: "mazeArray s1 = mazeArray s" by (simp add: s1)
      from setCell_defined[OF wf onSide_inBounds[OF w h st(3)], of 0]
      obtain a where a: "setCell (mazeArray s) st 0 = Some a" by blast
      have "wellFormed (s\<lparr>mazeArray := a\<rparr>)" using wf by (simp add: wellFormed_setCell[OF a])
      from setCell_defined[OF this, of en 0] onSide_inBounds[OF w h en(3)]
      obtain a' where a': "setCell a en 0 = Some a'" by auto
      have "createStartAndEnd rnd s = Inr (st, en, ?s3\<lparr>mazeArray := a'\<rparr>)"
        using p st(1) en(1) a a' by (simp add: createStartAndEnd_def m3)
      moreover have "?s3\<lparr>mazeArray := a'\<rparr> = s\<lparr>draws := d3, mazeArray := a'\<rparr>" by (simp add: s1)
      ultimately show ?thesis using a a' st(2,3) en(2,3) by metis
    qed
  qed
qed

lemma step_sym: "step board x y \<Longrightarrow> step board y x"
  by (auto simp: step_def adjacent_def)

lemma reach_sym: "(step board)\<^sup>*\<^sup>* x y \<Longrightarrow> (step board)\<^sup>*\<^sup>* y x"
proof (induction rule: rtranclp_induct)
  case base
  show ?case by simp
next
  case (step y z)
  from step.hyps(2) have "step board z y" by (rule step_sym)
  then show ?case using step.IH by (rule converse_rtranclp_into_rtranclp)
qed

lemma reach_walk:
  assumes "(step (maze m))\<^sup>*\<^sup>* a b" and "isValidMove m a"
    and valid: "\<And>c. cellAt (maze m) c = Some 0 \<Longrightarrow> isValidMove m c"
  shows "\<exists>xs. walk m (xs @ [b]) \<and> hd (xs @ [b]) = a"
  using assms(1)
proof (induction rule: rtranclp_induct)
  case base
  from assms(2) show ?case by (intro exI[of _ "[]"]) simp
next
  case (step y z)
  then obtain xs where xs: "walk m (xs @ [y])" "hd (xs @ [y]) = a" by blast
  from step.hyps(2) have "adjacent y z" "isValidMove m z" by (simp_all add: step_def valid)
  with xs(1) have "walk m (xs @ [y, z])" by (intro walk_snoc)
  moreover have "hd ((xs @ [y]) @ [z]) = a" using xs(2) by (cases xs) simp_all
  ultimately show ?case by (intro exI[of _ "xs @ [y]"]) simp
qed

lemma valid_of_cell:
  assumes "length board = h" and "list_all (\<lambda>row. length row = w) board"
    and "cellAt board c = Some 0"
  shows "isValidCoordinate board c"
proof -
  obtain cx cy where c: "c = (cx, cy)" by (cases c)
  from assms(3) have r: "0 \<le> cy" "cy < int (length board)" "0 \<le> cx" "cx < int (length (board ! nat cy))"
    by (simp_all add: c cellAt_Some_iff)
  from r have "0 < length board" by auto
  with r assms(2) have "length (board ! nat cy) = w" "length (board ! 0) = w"
    by (simp_all add: list_all_length)
  with r assms(3) show ?thesis by (simp add: isValidCoordinate_def c)
qed

subsection \<open>The generated maze\<close>

lemma generate_cases:
  assumes w: "3 \<le> w" and h: "3 \<le> h" and dirs: "mset dirs = mset initialDirections"
    and gen: "generate rnd fuel (newMazeGenerator w h dirs) = Inr m"
  obtains root s1 st en a a' sideS sideE where
    "genInv root s1" "width s1 = w" "height s1 = h"
    "setCell (mazeArray s1) st 0 = Some a" "setCell a en 0 = Some a'"
    "onSide s1 sideS st" "isValidStartEndPoint s1 st"
    "onSide s1 sideE en" "isValidStartEndPoint s1 en"
    "m = \<lparr> maze = a', start = st, end = en \<rparr>"
proof -
  from gen obtain s1 where c: "carve rnd fuel (newMazeGenerator w h dirs) = Inr s1"
    by (cases "carve rnd fuel (newMazeGenerator w h dirs)") (simp_all add: generate_def)
  from carve_grown[OF w h dirs, of fuel rnd] c obtain root where
    inv: "genInv root s1" and dims: "width s1 = w" "height s1 = h" by blast
  from gen c obtain st en s2 where cse: "createStartAndEnd rnd s1 = Inr (st, en, s2)"
    and cr: "create (mazeArray s2) st en = Inr m"
    by (cases "createStartAndEnd rnd s1") (auto simp: generate_def)
  from createStartAndEnd_result[OF genInv_wf[OF inv], of rnd] w h dims cse
  obtain a a' d sideS sideE where
    r: "s2 = s1\<lparr>draws := d, mazeArray := a'\<rparr>"
      "setCell (mazeArray s1) st 0 = Some a" "setCell a en 0 = Some a'"
      "onSide s1 sideS st" "isValidStartEndPoint s1 st"
      "onSide s1 sideE en" "isValidStartEndPoint s1 en"
    by auto
  from cr have "m = \<lparr> maze = a', start = st, end = en \<rparr>"
    by (simp add: create_eq r(1) split: if_splits)
  with inv dims r show ?thesis by (intro that)
qed

lemma generate_connected:
  assumes w: "3 \<le> w" and h: "3 \<le> h" and dirs: "mset dirs = mset initialDirections"
    and gen: "generate rnd fuel (newMazeGenerator w h dirs) = Inr m"
  shows "isValidMove m (getStart m) \<and> isValidMove m (getEnd m)
    \<and> (\<exists>p. connects m p (getStart m) (getEnd m)) \<and> (\<exists>p. connects m p (getEnd m) (getStart m))"
proof -
  from w h dirs gen obtain root s1 st en a a' sideS sideE where
    inv: "genInv root s1" and dims: "width s1 = w" "height s1 = h"
    and a: "setCell (mazeArray s1) st 0 = Some a" and a': "setCell a en 0 = Some a'"
    and st: "onSide s1 sideS st" "isValidStartEndPoint s1 st"
    and en: "onSide s1 sideE en" "isValidStartEndPoint s1 en"
    and m: "m = \<lparr> maze = a', start = st, end = en \<rparr>"
    by (rule generate_cases)
  have w1: "3 \<le> width s1" and h1: "3 \<le> height s1" using w h dims by simp_all
  let ?n1 = "inward sideS st" and ?n2 = "inward sideE en"
  from accepted_has_passage[OF inv w1 h1 st] have n1: "cellAt (mazeArray s1) ?n1 = Some 0"
    "adjacent st ?n1" by simp_all
  from accepted_has_passage[OF inv w1 h1 en] have n2: "cellAt (mazeArray s1) ?n2 = Some 0"
    "adjacent en ?n2" by simp_all
  have cell: "cellAt a' c = (if c = en \<or> c = st then Some 0 else cellAt (mazeArray s1) c)" for c
    by (simp add: cellAt_setCell[OF a'] cellAt_setCell[OF a])
  have up: "(step a')\<^sup>*\<^sup>* x y" if "(step (mazeArray s1))\<^sup>*\<^sup>* x y" for x y
    using that by (intro reach_setCell[OF a'] reach_setCell[OF a])
  have r1: "(step a')\<^sup>*\<^sup>* root ?n1" using genInv_carved[OF inv n1(1)] by (rule up)
  have r2: "(step a')\<^sup>*\<^sup>* root ?n2" using genInv_carved[OF inv n2(1)] by (rule up)
  have s1: "step a' st ?n1" using n1 by (simp add: step_def cell)
  have s2: "step a' ?n2 en" using n2 by (auto simp: step_def cell adjacent_def)
  have "(step a')\<^sup>*\<^sup>* st ?n1" using s1 by simp
  also have "(step a')\<^sup>*\<^sup>* ?n1 root" using r1 by (rule reach_sym)
  also note r2
  also have "(step a')\<^sup>*\<^sup>* ?n2 en" using s2 by simp
  finally have fwd: "(step (maze m))\<^sup>*\<^sup>* st en" by (simp add: m)
  then have bwd: "(step (maze m))\<^sup>*\<^sup>* en st" by (rule reach_sym)
  have wf: "wellFormed s1" using inv by (rule genInv_wf)
  have shape: "length a' = h" "list_all (\<lambda>row. length row = w) a'"
    using wf dims setCell_shape(1)[OF a] setCell_shape(1)[OF a']
      setCell_shape(2)[OF a, of w] setCell_shape(2)[OF a', of w]
    by (simp_all add: wellFormed_def)
  have valid: "isValidMove m c" if "cellAt (maze m) c = Some 0" for c
    using valid_of_cell[OF shape] that by (simp add: isValidMove_def m)
  have vs: "isValidMove m st" and ve: "isValidMove m en"
    by (rule valid, simp add: m cell)+
  from reach_walk[OF fwd vs valid] obtain xs where "walk m (xs @ [en])" "hd (xs @ [en]) = st"
    by blast
  then have c1: "connects m (xs @ [en]) st en" by (simp add: connects_def)
  from reach_walk[OF bwd ve valid] obtain ys where "walk m (ys @ [st])" "hd (ys @ [st]) = en"
    by blast
  then have c2: "connects m (ys @ [st]) en st" by (simp add: connects_def)
  from vs ve c1 c2 show ?thesis unfolding getStart_def getEnd_def m by auto
qed

lemma generate_total:
  assumes w: "3 \<le> w" and h: "3 \<le> h" and dirs: "mset dirs = mset initialDirections"
    and fuel: "w * h \<le> fuel"
  shows "generate rnd fuel (newMazeGenerator w h dirs) = Inl FailedToCreateUsableMaze
     \<or> (\<exists>m. generate rnd fuel (newMazeGenerator w h dirs) = Inr m)"
proof -
  from carve_grown[OF w h dirs, of fuel rnd] fuel obtain s1 root where
    c: "carve rnd fuel (newMazeGenerator w h dirs) = Inr s1"
    and inv: "genInv root s1" and dims: "width s1 = w" "height s1 = h"
    by blast
  have wf: "wellFormed s1" using inv by (rule genInv_wf)
  have w1: "3 \<le> width s1" and h1: "3 \<le> height s1" using w h dims by simp_all
  from createStartAndEnd_result[OF wf w1 h1, of rnd] show ?thesis
  proof
    assume "createStartAndEnd rnd s1 = Inl FailedToCreateUsableMaze"
    with c show ?thesis by (simp add: generate_def)
  next
    assume "\<exists>st en a a' d sideS sideE.
           createStartAndEnd rnd s1 = Inr (st, en, s1\<lparr>draws := d, mazeArray := a'\<rparr>)
           \<and> setCell (mazeArray s1) st 0 = Some a \<and> setCell a en 0 = Some a'
           \<and> onSide s1 sideS st \<and> isValidStartEndPoint s1 st
           \<and> onSide s1 sideE en \<and> isValidStartEndPoint s1 en"
    then obtain st en a a' d where
      cse: "createStartAndEnd rnd s1 = Inr (st, en, s1\<lparr>draws := d, mazeArray := a'\<rparr>)"
      and a: "setCell (mazeArray s1) st 0 = Some a" and a': "setCell a en 0 = Some a'"
      by blast
    have shape: "length a' = h" "list_all (\<lambda>row. length row = w) a'"
      using wf dims setCell_shape(1)[OF a] setCell_shape(1)[OF a']
      setCell_shape(2)[OF a, of w] setCell_shape(2)[OF a', of w]
    by (simp_all add: wellFormed_def)
    have "cellAt a' st = Some 0" by (simp add: cellAt_setCell[OF a'] cellAt_setCell[OF a])
    with shape have "isValidCoordinate a' st" by (rule valid_of_cell)
    with c cse show ?thesis by (simp add: generate_def create_eq)
  qed
qed

section \<open>The construction factory\<close>

text \<open>
  Claim C3: \<open>create\<close> fails whenever the entrance or the exit is out of bounds or on a
  wall cell, in particular for an exit on a wall with a valid entrance. The source
  computes \<open>isPossibleEnd\<close> from \<open>start\<close>, so the exit is never looked at: on the board
  \<open>[[0, 1], [0, 0]]\<close> with entrance \<open>(0, 0)\<close> and exit \<open>(1, 0)\<close>, a wall, the maze is
  constructed.
\<close>

theorem create_accepts_wall_exit:
  "create [[0, 1], [0, 0]] (0, 0) (1, 0) = Inr \<lparr> maze = [[0, 1], [0, 0]], start = (0, 0), end = (1, 0) \<rparr>
   \<and> cellAt [[0, 1], [0, 0]] (1, 0) = Some 1
   \<and> \<not> isValidCoordinate [[0, 1], [0, 0]] (1, 0)"
  by (simp add: create_def isValidCoordinate_def cellAt_def)

theorem create_accepts_wall_exit_witness:
  "\<exists>m. create [[0, 1], [0, 0]] (0, 0) (1, 0) = Inr m \<and> cellAt (maze m) (end m) = Some 1"
  using create_accepts_wall_exit by simp

text \<open>
  Claim C9: \<open>create\<close> fails for every matrix that is not rectangular. It does not:
  \<open>create\<close> does not look at the lengths of the rows.
\<close>

theorem create_accepts_ragged_matrix:
  "\<not> rectangular [[0], [0, 0]] \<and>
   create [[0], [0, 0]] (0, 0) (0, 1) = Inr \<lparr> maze = [[0], [0, 0]], start = (0, 0), end = (0, 1) \<rparr>"
  by (simp add: create_def isValidCoordinate_def cellAt_def rectangular_def)

text \<open>
  Claim C9, as amended: on a matrix that is not rectangular \<open>create\<close> does not fail on
  account of the shape (the row lengths are compared by the file loader, not by
  \<open>create\<close>): it fails with the validation error whenever the entrance is not a valid
  coordinate of the matrix, and it constructs the maze over that matrix whenever the
  entrance and the exit are both valid coordinates of it.
\<close>

theorem create_ignores_shape:
  assumes "\<not> rectangular board"
  shows "(\<not> isValidCoordinate board s \<longrightarrow> create board s e = Inl InvalidStartOrEnd)
    \<and> (isValidCoordinate board s \<and> isValidCoordinate board e \<longrightarrow>
          create board s e = Inr \<lparr> maze = board, start = s, end = e \<rparr>)"
  by (simp add: create_eq)

theorem create_ignores_shape_witness:
  "create [[0, 0], [0]] (1, 0) (0, 1) = Inr \<lparr> maze = [[0, 0], [0]], start = (1, 0), end = (0, 1) \<rparr>
   \<and> create [[0, 0], [0]] (1, 1) (0, 0) = Inl InvalidStartOrEnd"
proof -
  have r: "\<not> rectangular [[0, 0], [0]]" by (simp add: rectangular_def)
  have v: "isValidCoordinate [[0, 0], [0]] (1, 0)" "isValidCoordinate [[0, 0], [0]] (0, 1)"
    "\<not> isValidCoordinate [[0, 0], [0]] (1, 1)"
    by (simp_all add: isValidCoordinate_def cellAt_def)
  from create_ignores_shape [OF r, of "(1, 0)" "(0, 1)"] create_ignores_shape [OF r, of "(1, 1)" "(0, 0)"] v
  show ?thesis by simp
qed


section \<open>Properties of the solver\<close>

text \<open>
  Claim C10: on a validly constructed maze whose entrance equals its exit, \<open>findPath\<close>
  returns the path of exactly that coordinate, without exploring any neighbour: the
  first dequeue yields the end and empties the queue, so the loop returns there, with the
  path built from the empty back-pointer map of the initial state, and no pass of the
  loop that deals with neighbours starts from the initial state.
\<close>

theorem findPath_start_is_end:
  assumes "create board s e = Inr m" and "getStart m = getEnd m"
  shows "findPath m = Some (Path [getStart m])
    \<and> search m (getEnd m) \<lparr> openSet = enqueue [] (getStart m) 0, parentMap = Map.empty,
          gScore = [getStart m \<mapsto> 0], fScore = [getStart m \<mapsto> heuristic (getStart m) (getEnd m)] \<rparr>
        = map_option Path (buildPath Map.empty (getStart m))
    \<and> dequeue (openSet (initial m)) = Some (getEnd m, [])
    \<and> \<not> (\<exists>st'. iteration m (getEnd m) (initial m) st')"
proof -
  have dq: "dequeue (openSet (initial m)) = Some (getEnd m, [])"
    using assms(2) by (simp add: initial_def enqueue_def dequeue_def)
  then have "\<not> (\<exists>st'. iteration m (getEnd m) (initial m) st')"
    by (simp add: iteration_def)
  moreover have "findPath m = Some (Path [getStart m])
    \<and> search m (getEnd m) \<lparr> openSet = enqueue [] (getStart m) 0, parentMap = Map.empty,
          gScore = [getStart m \<mapsto> 0], fScore = [getStart m \<mapsto> heuristic (getStart m) (getEnd m)] \<rparr>
        = map_option Path (buildPath Map.empty (getStart m))"
    using assms(2)
    by (simp add: findPath_def Let_def search.simps [of m "getEnd m"] enqueue_def dequeue_def
        buildPath_def buildPathLoop.simps)
  ultimately show ?thesis using dq by simp
qed

theorem findPath_start_is_end_witness:
  "findPath \<lparr> maze = [[0, 1], [1, 1]], start = (0, 0), end = (0, 0) \<rparr> = Some (Path [(0, 0)])
   \<and> \<not> (\<exists>st'. iteration \<lparr> maze = [[0, 1], [1, 1]], start = (0, 0), end = (0, 0) \<rparr> (0, 0)
              (initial \<lparr> maze = [[0, 1], [1, 1]], start = (0, 0), end = (0, 0) \<rparr>) st')"
  using findPath_start_is_end [of "[[0, 1], [1, 1]]" "(0, 0)" "(0, 0)"
      "\<lparr> maze = [[0, 1], [1, 1]], start = (0, 0), end = (0, 0) \<rparr>"]
  by (simp add: create_def isValidCoordinate_def cellAt_def getStart_def getEnd_def)

text \<open>
  Claim C4: on a validly constructed maze, a path returned by \<open>findPath\<close> starts at the
  entrance, ends at the exit, consists of valid moves only, and each coordinate differs
  from the next by exactly one unit in exactly one axis.
\<close>

theorem findPath_path_wellformed:
  assumes "create board s e = Inr m" and "findPath m = Some (Path p)"
  shows "p \<noteq> [] \<and> hd p = getStart m \<and> last p = getEnd m
    \<and> (\<forall>c \<in> set p. isValidMove m c)
    \<and> (\<forall>i. Suc i < length p \<longrightarrow> adjacent (p ! i) (p ! Suc i))"
proof -
  from findPath_correct[OF create_valid_start[OF assms(1)]] assms(2)
  have "connects m p (getStart m) (getEnd m)" by auto
  then show ?thesis
    by (auto simp: connects_def walk_valid walk_adjacent dest: walk_nonempty)
qed

theorem findPath_path_wellformed_witness:
  "findPath exampleMaze = Some (Path examplePath)
   \<and> hd examplePath = (0, 0) \<and> last examplePath = (4, 4)
   \<and> list_all (isValidMove exampleMaze) examplePath
   \<and> adjacent (examplePath ! 0) (examplePath ! 1)"
proof -
  have c: "create (maze exampleMaze) (0, 0) (4, 4) = Inr exampleMaze"
    by (simp add: create_def exampleMaze_def isValidCoordinate_def cellAt_def)
  have f: "findPath exampleMaze = Some (Path examplePath)"
    by code_simp
  note t = findPath_path_wellformed [OF c f]
  from t have "\<forall>c \<in> set examplePath. isValidMove exampleMaze c" by blast
  then have v: "list_all (isValidMove exampleMaze) examplePath" by (simp only: list_all_iff)
  from t have "Suc 0 < length examplePath \<longrightarrow> adjacent (examplePath ! 0) (examplePath ! Suc 0)"
    by blast
  moreover have "Suc 0 < length examplePath" by (simp add: examplePath_def)
  ultimately have a: "adjacent (examplePath ! 0) (examplePath ! 1)" by simp
  from t have h: "hd examplePath = (0, 0)" "last examplePath = (4, 4)"
    by (simp_all add: getStart_def getEnd_def exampleMaze_def)
  from f v a h show ?thesis by simp
qed

text \<open>
  Claim C7: on a validly constructed maze without any walk from the entrance to the
  exit, \<open>findPath\<close> returns (\<open>Some\<close>) and its result is the value \<open>Null\<close>, not an error;
  the passes of its loop lead from the initial state to a state whose queue is empty.
\<close>

theorem findPath_no_path_null:
  assumes "create board s e = Inr m" and "\<forall>w. \<not> connects m w (getStart m) (getEnd m)"
  shows "findPath m = Some Null
    \<and> (\<exists>st'. (iteration m (getEnd m))\<^sup>*\<^sup>* (initial m) st' \<and> isEmpty (openSet st'))"
proof -
  from findPath_correct[OF create_valid_start[OF assms(1)]] assms(2)
  have n: "findPath m = Some Null" by auto
  then have "search m (getEnd m) (initial m) = Some Null" by (simp add: findPath_search)
  from search_null_exhausted[OF this] n show ?thesis by simp
qed

theorem findPath_no_path_null_witness:
  "findPath \<lparr> maze = [[0, 1], [1, 0]], start = (0, 0), end = (1, 1) \<rparr> = Some Null"
proof -
  let ?m = "\<lparr> maze = [[0, 1], [1, 0]], start = (0, 0), end = (1, 1) \<rparr>"
  have c: "create [[0, 1], [1, 0]] (0, 0) (1, 1) = Inr ?m"
    by (simp add: create_def isValidCoordinate_def cellAt_def)
  have "\<not> connects ?m w (0, 0) (1, 1)" for w
  proof
    assume w: "connects ?m w (0, 0) (1, 1)"
    then obtain b cs where "w = (0, 0) # b # cs"
      by (cases w; cases "tl w") (auto simp: connects_def)
    with w have "adjacent (0, 0) b" "isValidMove ?m b"
      by (cases cs; simp add: connects_def)+
    then show False
      by (cases b) (auto simp: adjacent_def isValidMove_def isValidCoordinate_def cellAt_def)
  qed
  then have "\<forall>w. \<not> connects ?m w (getStart ?m) (getEnd ?m)"
    by (simp add: getStart_def getEnd_def)
  with findPath_no_path_null [OF c] show ?thesis by simp
qed

text \<open>
  Claim C1: on a validly constructed maze with at least one walk from the entrance to the
  exit, \<open>findPath\<close> returns a walk from the entrance to the exit whose number of moves is
  at most that of every such walk, hence the shortest-path distance; the heuristic is the
  Manhattan distance.
\<close>

theorem findPath_shortest:
  assumes "create board s e = Inr m" and "connects m w (getStart m) (getEnd m)"
  shows "\<exists>p. findPath m = Some (Path p) \<and> connects m p (getStart m) (getEnd m)
      \<and> (\<forall>w'. connects m w' (getStart m) (getEnd m) \<longrightarrow> length p - 1 \<le> length w' - 1)
      \<and> (\<forall>a b. int (heuristic a b) = \<bar>fst a - fst b\<bar> + \<bar>snd a - snd b\<bar>)"
proof -
  from findPath_correct[OF create_valid_start[OF assms(1)]] assms(2)
  obtain p where "findPath m = Some (Path p)" "connects m p (getStart m) (getEnd m)"
    "\<forall>w. connects m w (getStart m) (getEnd m) \<longrightarrow> length p \<le> length w"
    by blast
  then show ?thesis by (auto simp: heuristic_def intro!: exI[of _ p] diff_le_mono)
qed

theorem findPath_shortest_witness:
  "connects exampleMaze examplePath (0, 0) (4, 4)
   \<and> (\<exists>p. findPath exampleMaze = Some (Path p) \<and> connects exampleMaze p (0, 0) (4, 4)
         \<and> length p - 1 \<le> 12)"
proof -
  have c: "create (maze exampleMaze) (0, 0) (4, 4) = Inr exampleMaze"
    by (simp add: create_def exampleMaze_def isValidCoordinate_def cellAt_def)
  have w: "connects exampleMaze examplePath (getStart exampleMaze) (getEnd exampleMaze)"
    by (simp add: connects_def examplePath_def exampleMaze_def getStart_def getEnd_def
        adjacent_def isValidMove_def isValidCoordinate_def cellAt_def)
  from findPath_shortest [OF c w] obtain p where
    p: "findPath exampleMaze = Some (Path p)"
      "connects exampleMaze p (getStart exampleMaze) (getEnd exampleMaze)"
      "\<forall>w'. connects exampleMaze w' (getStart exampleMaze) (getEnd exampleMaze)
         \<longrightarrow> length p - 1 \<le> length w' - 1"
    by blast
  from p(3) w have "length p - 1 \<le> length examplePath - 1" by blast
  then have "length p - 1 \<le> 12" by (simp add: examplePath_def)
  with p(1,2) w show ?thesis
    by (auto simp: getStart_def getEnd_def exampleMaze_def)
qed

section \<open>Properties of the generator\<close>

text \<open>
  Claim C6: the acceptance test accepts a coordinate if and only if at most two of its
  four neighbours are walls, a neighbour outside the matrix counting as a wall. It does
  not: on the carved 3 by 3 grid the top coordinate \<open>(1, 0)\<close> has three such neighbours
  (two walls beside it and the outside above it) and is accepted.
\<close>

theorem isValidStartEndPoint_skips_outside:
  "isValidStartEndPoint carved3 (1, 0) \<and> wallNeighborsCountingOutside carved3 (1, 0) = 3
   \<and> \<not> (isValidStartEndPoint carved3 (1, 0) \<longleftrightarrow> wallNeighborsCountingOutside carved3 (1, 0) \<le> 2)"
  by (simp add: isValidStartEndPoint_def wallNeighborsCountingOutside_def carved3_def
      initialDirections_def getNeighbors_def inBounds_def cellAt_def)

text \<open>
  Claim C6, as amended: the acceptance test accepts a coordinate if and only if at most
  two of its axis-aligned neighbours inside the matrix are walls; a neighbour outside the
  matrix is not counted. This holds whatever the order of the shared directions array.
\<close>

theorem isValidStartEndPoint_in_bounds_only:
  assumes "mset (directions s) = mset initialDirections"
  shows "isValidStartEndPoint s c \<longleftrightarrow> wallNeighbors s c \<le> 2"
  using assms by (rule accepted_iff_wallNeighbors)

theorem isValidStartEndPoint_in_bounds_only_witness:
  "isValidStartEndPoint carved3 (1, 0) \<and> wallNeighbors carved3 (1, 0) = 2
   \<and> \<not> isValidStartEndPoint (newMazeGenerator 3 3 initialDirections) (1, 0)
   \<and> wallNeighbors (newMazeGenerator 3 3 initialDirections) (1, 0) = 3"
  using isValidStartEndPoint_in_bounds_only [of carved3 "(1, 0)"]
    isValidStartEndPoint_in_bounds_only [of "newMazeGenerator 3 3 initialDirections" "(1, 0)"]
  by (simp add: wallNeighbors_def carved3_def newMazeGenerator_def getNeighbors_def inBounds_def
      cellAt_def numeral_3_eq_3)

text \<open>
  Claim C2: for odd width and height of at least 3, whenever \<open>generate\<close> returns a maze,
  its entrance and its exit are passable and a walk of passable cells leads from each to
  the other. (The shared directions array holds the four directions in some order.)
\<close>

theorem generate_entrance_exit_connected:
  assumes "odd w" and "odd h" and "3 \<le> w" and "3 \<le> h"
    and "mset dirs = mset initialDirections"
    and "generate rnd fuel (newMazeGenerator w h dirs) = Inr m"
  shows "isValidMove m (getStart m) \<and> isValidMove m (getEnd m)
    \<and> (\<exists>p. connects m p (getStart m) (getEnd m)) \<and> (\<exists>p. connects m p (getEnd m) (getStart m))"
  using assms(3-6) by (rule generate_connected)

theorem generate_entrance_exit_connected_witness:
  "generate (tape []) 9 (newMazeGenerator 3 3 initialDirections) = Inr generated3
   \<and> isValidMove generated3 (1, 0) \<and> isValidMove generated3 (2, 1)
   \<and> (\<exists>p. connects generated3 p (1, 0) (2, 1))"
proof -
  have g: "generate (tape []) 9 (newMazeGenerator 3 3 initialDirections) = Inr generated3"
    by code_simp
  from generate_entrance_exit_connected [of 3 3 initialDirections "tape []" 9 generated3, OF _ _ _ _ _ g]
  show ?thesis using g by (simp add: getStart_def getEnd_def generated3_def)
qed

text \<open>
  Claim C8: for width and height of at least 3 and every state of that size, the
  placement loop of one side samples at most 100 coordinates (one draw each); if none of
  the 100 sampled coordinates is accepted, \<open>createStartAndEndCoordinate\<close> raises the
  generation error; and generation as a whole returns, with a maze or with that error,
  for every call depth of at least \<open>width * height\<close>.
\<close>

theorem placement_bounded_generation_total:
  assumes "3 \<le> w" and "3 \<le> h" and "width s = w" and "height s = h"
    and "mset dirs = mset initialDirections"
  shows "(\<forall>coord isValid attempts s'.
            placementLoop rnd side None False 0 s = (coord, isValid, attempts, s') \<longrightarrow>
            attempts \<le> 100 \<and> draws s' = draws s + attempts)
     \<and> ((\<forall>k<100. \<not> isValidStartEndPoint s (sample rnd side s k)) \<longrightarrow>
            createStartAndEndCoordinate rnd side s = Inl FailedToCreateUsableMaze)
     \<and> (\<forall>fuel \<ge> w * h.
            generate rnd fuel (newMazeGenerator w h dirs) = Inl FailedToCreateUsableMaze
            \<or> (\<exists>m. generate rnd fuel (newMazeGenerator w h dirs) = Inr m))"
proof (intro conjI allI impI)
  fix coord isValid attempts s'
  assume p: "placementLoop rnd side None False 0 s = (coord, isValid, attempts, s')"
  have d: "3 \<le> width s" "3 \<le> height s" using assms by simp_all
  from placementLoop_result[OF p _ d] have "attempts \<le> maxAttempts"
    "s' = s\<lparr>draws := draws s + (attempts - 0)\<rparr>" by simp_all
  then show "attempts \<le> 100" "draws s' = draws s + attempts" by (simp_all add: maxAttempts_def)
next
  assume "\<forall>k<100. \<not> isValidStartEndPoint s (sample rnd side s k)"
  then have "\<forall>k. 0 \<le> k \<and> k < maxAttempts \<longrightarrow> \<not> isValidStartEndPoint s (sample rnd side s k)"
    by (simp add: maxAttempts_def)
  from placementLoop_all_rejected[OF this, of None] obtain coord' where
    "placementLoop rnd side None False 0 s = (coord', False, maxAttempts, s\<lparr>draws := draws s + maxAttempts\<rparr>)"
    by auto
  then show "createStartAndEndCoordinate rnd side s = Inl FailedToCreateUsableMaze"
    by (simp add: createStartAndEndCoordinate_def)
next
  fix fuel assume "w * h \<le> fuel"
  with assms(1,2,5) show "generate rnd fuel (newMazeGenerator w h dirs) = Inl FailedToCreateUsableMaze
            \<or> (\<exists>m. generate rnd fuel (newMazeGenerator w h dirs) = Inr m)"
    by (rule generate_total)
qed

theorem placement_bounded_generation_total_witness:
  "createStartAndEndCoordinate (tape []) Top (newMazeGenerator 3 3 initialDirections)
     = Inl FailedToCreateUsableMaze
   \<and> (\<exists>m. generate (tape []) 9 (newMazeGenerator 3 3 initialDirections) = Inr m)"
proof -
  let ?s = "newMazeGenerator 3 3 initialDirections"
  note t = placement_bounded_generation_total [of 3 3 ?s initialDirections "tape []" Top]
  have rej: "\<not> isValidStartEndPoint ?s (sample (tape []) Top ?s k)" for k
    by (simp add: sample_def getRandomSizeCoordinate_def randomFloor_def tape_def
        isValidStartEndPoint_def newMazeGenerator_def initialDirections_def cellAt_def
        numeral_3_eq_3)
  have "generate (tape []) 9 ?s = Inr generated3" by code_simp
  with t rej show ?thesis by (simp add: newMazeGenerator_def)
qed

text \<open>
  Claim C5: after carving, every interior cell with odd coordinates is passable and the
  passages form a spanning tree of the odd lattice. The loop over the directions reads
  the shared array that the nested calls shuffle in place, so a direction can be read
  twice and another never: on the 3 by 7 grid, from the start cell \<open>(1, 3)\<close>, the draws
  below carve \<open>(1, 4)\<close> and \<open>(1, 5)\<close> and leave the odd cell \<open>(1, 1)\<close> a wall.
\<close>

theorem carve_leaves_odd_cell_wall:
  "carve (tape [0, 1, 3, 2, 1, 3, 0, 1]) 10 (newMazeGenerator 3 7 initialDirections) =
     Inr \<lparr> width = 3, height = 7,
           mazeArray = [[1, 1, 1], [1, 1, 1], [1, 1, 1], [1, 0, 1], [1, 0, 1], [1, 0, 1], [1, 1, 1]],
           directions = [(0, - 1), (1, 0), (0, 1), (- 1, 0)], draws = 8 \<rparr>"
  by code_simp

theorem carve_leaves_odd_cell_wall_witness:
  "\<exists>s. carve (tape [0, 1, 3, 2, 1, 3, 0, 1]) 10 (newMazeGenerator 3 7 initialDirections) = Inr s
     \<and> cellAt (mazeArray s) (1, 1) = Some 1 \<and> cellAt (mazeArray s) (1, 3) = Some 0"
  using carve_leaves_odd_cell_wall by (simp add: cellAt_def)

end
